theory Spec2Isabelle
  imports Main "HOL-Library.Extended_Nat" "HOL-Library.Multiset"
begin

section \<open>Data model\<close>

text \<open>
  A board is a Python list of rows, each row a list of integers (\<open>0\<close> is an unvisited
  square, \<open>k > 0\<close> the \<open>k\<close>-th square visited). Rows are distinct objects, as
  \<open>create_empty_board\<close> builds them, so a board is the value \<open>int list list\<close>.
  The solver's field \<open>size\<close> is the parameter \<open>sz\<close> of every operation.
\<close>

type_synonym board = "int list list"
type_synonym pos = "int \<times> int"

datatype error = IndexError | TypeError

definition deltas :: "(int \<times> int) list" where
  "deltas = [(-1, 2), (-2, 1), (-2, -1), (-1, -2), (1, -2), (2, -1), (2, 1), (1, 2)]"

definition create_empty_board :: "int \<Rightarrow> board" where
  "create_empty_board sz = replicate (nat sz) (replicate (nat sz) 0)"

text \<open>
  Python list indexing: an index in \<open>[-n, n)\<close> is accepted, a negative one counting
  from the end; anything else raises \<open>IndexError\<close>.
\<close>

definition norm_index :: "nat \<Rightarrow> int \<Rightarrow> nat option" where
  "norm_index n i =
     (if 0 \<le> i \<and> i < int n then Some (nat i)
      else if - int n \<le> i \<and> i < 0 then Some (nat (int n + i))
      else None)"

definition cell :: "board \<Rightarrow> int \<Rightarrow> int \<Rightarrow> error + int" where
  "cell brd r c =
     (case norm_index (length brd) r of
        None \<Rightarrow> Inl IndexError
      | Some i \<Rightarrow>
          (case norm_index (length (brd ! i)) c of
             None \<Rightarrow> Inl IndexError
           | Some j \<Rightarrow> Inr (brd ! i ! j)))"

definition set_cell :: "board \<Rightarrow> int \<Rightarrow> int \<Rightarrow> int \<Rightarrow> error + board" where
  "set_cell brd r c v =
     (case norm_index (length brd) r of
        None \<Rightarrow> Inl IndexError
      | Some i \<Rightarrow>
          (case norm_index (length (brd ! i)) c of
             None \<Rightarrow> Inl IndexError
           | Some j \<Rightarrow> Inr (brd[i := (brd ! i)[j := v]])))"

section \<open>Move generator\<close>

definition get_accessible_fields :: "int \<Rightarrow> int \<Rightarrow> int \<Rightarrow> pos list" where
  "get_accessible_fields sz r c =
     map (\<lambda>delta. (r + fst delta, c + snd delta))
       (filter (\<lambda>delta. 0 \<le> r + fst delta \<and> r + fst delta < sz \<and>
                         0 \<le> c + snd delta \<and> c + snd delta < sz) deltas)"

fun keep_empty :: "board \<Rightarrow> pos list \<Rightarrow> error + pos list" where
  "keep_empty brd [] = Inr []"
| "keep_empty brd (field # fields) =
     (case cell brd (fst field) (snd field) of
        Inl e \<Rightarrow> Inl e
      | Inr v \<Rightarrow>
          (case keep_empty brd fields of
             Inl e \<Rightarrow> Inl e
           | Inr rest \<Rightarrow> Inr (if v = 0 then field # rest else rest)))"

definition get_possible_jumps :: "int \<Rightarrow> board \<Rightarrow> int \<Rightarrow> int \<Rightarrow> error + pos list" where
  "get_possible_jumps sz brd r c = keep_empty brd (get_accessible_fields sz r c)"

section \<open>Heuristic filler\<close>

fun best_jump_loop :: "int \<Rightarrow> board \<Rightarrow> int \<times> pos \<Rightarrow> pos list \<Rightarrow> error + (int \<times> pos)" where
  "best_jump_loop sz brd best [] = Inr best"
| "best_jump_loop sz brd best (jump # jumps) =
     (case get_possible_jumps sz brd (fst jump) (snd jump) of
        Inl e \<Rightarrow> Inl e
      | Inr js \<Rightarrow>
          (let deg = int (length js)
           in best_jump_loop sz brd (if deg < fst best then (deg, jump) else best) jumps))"

definition zeros :: "board \<Rightarrow> nat" where
  "zeros brd = sum_list (map (\<lambda>row. count_list row 0) brd)"

definition fill_measure :: "int \<times> board \<times> int \<times> int \<times> int \<Rightarrow> nat" where
  "fill_measure = (\<lambda>(sz, brd, r, c, num).
      2 * zeros brd + (if cell brd r c = Inr 0 then 0 else 1))"

lemma count_list_update:
  "j < length xs \<Longrightarrow>
   count_list (xs[j := v]) a + (if xs ! j = a then 1 else 0) =
   count_list xs a + (if v = a then 1 else 0)"
proof (induction xs arbitrary: j)
  case Nil
  then show ?case by simp
next
  case (Cons x xs)
  show ?case
  proof (cases j)
    case 0
    then show ?thesis by simp
  next
    case (Suc k)
    then have "k < length xs" using Cons.prems by simp
    from Cons.IH[OF this] show ?thesis using Suc by (auto split: if_splits)
  qed
qed

lemma sum_list_update_nat:
  "i < length (xs :: nat list) \<Longrightarrow> sum_list (xs[i := y]) + xs ! i = sum_list xs + y"
proof (induction xs arbitrary: i)
  case Nil
  then show ?case by simp
next
  case (Cons x xs)
  then show ?case by (cases i) auto
qed

lemma zeros_update:
  assumes "i < length brd" and "j < length (brd ! i)"
  shows "zeros (brd[i := (brd ! i)[j := v]]) + (if brd ! i ! j = 0 then 1 else 0) =
         zeros brd + (if v = 0 then 1 else 0)"
proof -
  let ?f = "\<lambda>row. count_list row (0::int)"
  have "sum_list ((map ?f brd)[i := ?f ((brd ! i)[j := v])]) + map ?f brd ! i =
        sum_list (map ?f brd) + ?f ((brd ! i)[j := v])"
    using assms(1) by (intro sum_list_update_nat) simp
  moreover have "?f ((brd ! i)[j := v]) + (if brd ! i ! j = 0 then 1 else 0) =
                 ?f (brd ! i) + (if v = 0 then 1 else 0)"
    using assms(2) by (rule count_list_update)
  ultimately show ?thesis
    using assms(1) by (simp add: zeros_def map_update)
qed

lemma norm_index_less: "norm_index n i = Some k \<Longrightarrow> k < n"
  by (auto simp: norm_index_def split: if_splits)

lemma set_cell_zeros:
  assumes "set_cell brd r c v = Inr brd1"
  shows "\<exists>old. cell brd r c = Inr old \<and>
           zeros brd1 + (if old = 0 then 1 else 0) = zeros brd + (if v = 0 then 1 else 0)"
proof -
  from assms obtain i j where i: "norm_index (length brd) r = Some i"
    and j: "norm_index (length (brd ! i)) c = Some j"
    and b: "brd1 = brd[i := (brd ! i)[j := v]]"
    by (auto simp: set_cell_def split: option.splits)
  have "cell brd r c = Inr (brd ! i ! j)"
    using i j by (simp add: cell_def)
  moreover have "zeros brd1 + (if brd ! i ! j = 0 then 1 else 0) =
      zeros brd + (if v = 0 then 1 else 0)"
    unfolding b using norm_index_less[OF i] norm_index_less[OF j] by (rule zeros_update)
  ultimately show ?thesis by blast
qed

lemma keep_empty_sound:
  "keep_empty brd fields = Inr js \<Longrightarrow> f \<in> set js \<Longrightarrow>
   f \<in> set fields \<and> cell brd (fst f) (snd f) = Inr 0"
  by (induction fields arbitrary: js) (auto split: sum.splits if_splits)

lemma keep_empty_length:
  "keep_empty brd fields = Inr js \<Longrightarrow> length js \<le> length fields"
  by (induction fields arbitrary: js) (auto split: sum.splits if_splits)

lemma length_accessible: "length (get_accessible_fields sz r c) \<le> 8"
proof -
  have "length (get_accessible_fields sz r c) \<le> length deltas"
    unfolding get_accessible_fields_def by simp
  then show ?thesis by (simp add: deltas_def)
qed

lemma possible_jumps_length:
  "get_possible_jumps sz brd r c = Inr js \<Longrightarrow> length js \<le> 8"
  unfolding get_possible_jumps_def
  using keep_empty_length length_accessible order_trans by blast

lemma best_jump_loop_mem:
  "best_jump_loop sz brd best jumps = Inr res \<Longrightarrow> res = best \<or> snd res \<in> set jumps"
proof (induction jumps arbitrary: best)
  case Nil
  then show ?case by simp
next
  case (Cons jump jumps)
  show ?case
  proof (cases "get_possible_jumps sz brd (fst jump) (snd jump)")
    case (Inl e)
    then show ?thesis using Cons.prems by simp
  next
    case (Inr js)
    let ?b = "if int (length js) < fst best then (int (length js), jump) else best"
    have "best_jump_loop sz brd ?b jumps = Inr res"
      using Cons.prems Inr by (simp add: Let_def)
    from Cons.IH[OF this] show ?thesis
      by (cases "int (length js) < fst best") auto
  qed
qed

lemma best_jump_loop_first:
  assumes "best_jump_loop sz brd (9, p0) jumps = Inr res" and "jumps \<noteq> []"
  shows "snd res \<in> set jumps"
proof -
  obtain jump rest where j: "jumps = jump # rest"
    using assms(2) by (cases jumps) auto
  show ?thesis
  proof (cases "get_possible_jumps sz brd (fst jump) (snd jump)")
    case (Inl e)
    then show ?thesis using assms(1) by (simp add: j)
  next
    case (Inr js)
    have "int (length js) < 9"
      using possible_jumps_length[OF Inr] by simp
    then have "best_jump_loop sz brd (int (length js), jump) rest = Inr res"
      using assms(1) Inr by (simp add: j Let_def)
    from best_jump_loop_mem[OF this] show ?thesis by (auto simp: j)
  qed
qed

function wandorf_fill :: "int \<Rightarrow> board \<Rightarrow> int \<Rightarrow> int \<Rightarrow> int \<Rightarrow> board \<times> (error + pos)" where
  "wandorf_fill sz brd r c num =
     (case set_cell brd r c num of
        Inl e \<Rightarrow> (brd, Inl e)
      | Inr brd1 \<Rightarrow>
          (case get_possible_jumps sz brd1 r c of
             Inl e \<Rightarrow> (brd1, Inl e)
           | Inr jumps \<Rightarrow>
               if length jumps = 0 then (brd1, Inr (r, c))
               else
                 (case best_jump_loop sz brd1 (9, (0, 0)) jumps of
                    Inl e \<Rightarrow> (brd1, Inl e)
                  | Inr best \<Rightarrow>
                      wandorf_fill sz brd1 (fst (snd best)) (snd (snd best)) (num + 1))))"
  by pat_completeness auto
termination
proof (relation "measures [\<lambda>(sz, brd, r, c, num). nat (1 - num), fill_measure]", goal_cases)
  case 1
  then show ?case by simp
next
  case (2 sz brd r c num brd1 jumps best)
  have "jumps \<noteq> []" using 2(3) by simp
  from best_jump_loop_first[OF 2(4) this] have mem: "snd best \<in> set jumps" .
  have empty: "cell brd1 (fst (snd best)) (snd (snd best)) = Inr 0"
    using keep_empty_sound[OF 2(2)[unfolded get_possible_jumps_def] mem] by simp
  obtain old where old: "cell brd r c = Inr old"
    and z: "zeros brd1 + (if old = 0 then 1 else 0) = zeros brd + (if num = 0 then 1 else 0)"
    using set_cell_zeros[OF 2(1)] by blast
  show ?case
  proof (cases "num \<le> 0")
    case True
    then show ?thesis by simp
  next
    case False
    then have n: "nat (1 - (num + 1)) = nat (1 - num)" "num \<noteq> 0" by simp_all
    have "fill_measure (sz, brd1, fst (snd best), snd (snd best), num + 1) = 2 * zeros brd1"
      using empty by (simp add: fill_measure_def)
    moreover have "fill_measure (sz, brd, r, c, num) =
        2 * zeros brd + (if old = 0 then 0 else 1)"
      using old by (simp add: fill_measure_def)
    moreover have "2 * zeros brd1 < 2 * zeros brd + (if old = 0 then 0 else 1)"
      using z n(2) by (cases "old = 0") simp_all
    ultimately show ?thesis using n(1) by simp
  qed
qed

declare wandorf_fill.simps [simp del]

section \<open>Path navigator\<close>

text \<open>
  \<open>get_next\<close> and \<open>get_prev\<close> scan the accessible fields in offset order for the value
  one higher (one lower) than the origin's. Python reads \<open>brd[field]\<close> before
  \<open>brd[r][c]\<close>, and reads neither when no field is accessible.
\<close>

fun scan_value :: "board \<Rightarrow> int \<Rightarrow> int \<Rightarrow> int \<Rightarrow> pos list \<Rightarrow> error + pos option" where
  "scan_value brd r c d [] = Inr None"
| "scan_value brd r c d (field # fields) =
     (case cell brd (fst field) (snd field) of
        Inl e \<Rightarrow> Inl e
      | Inr v \<Rightarrow>
          (case cell brd r c of
             Inl e \<Rightarrow> Inl e
           | Inr w \<Rightarrow> if v = w + d then Inr (Some field) else scan_value brd r c d fields))"

definition get_next :: "int \<Rightarrow> board \<Rightarrow> int \<Rightarrow> int \<Rightarrow> error + pos option" where
  "get_next sz brd r c = scan_value brd r c 1 (get_accessible_fields sz r c)"

definition get_prev :: "int \<Rightarrow> board \<Rightarrow> int \<Rightarrow> int \<Rightarrow> error + pos option" where
  "get_prev sz brd r c = scan_value brd r c (- 1) (get_accessible_fields sz r c)"

definition all_fields :: "int \<Rightarrow> pos list" where
  "all_fields sz = concat (map (\<lambda>r. map (\<lambda>c. (r, c)) [0..sz - 1]) [0..sz - 1])"

fun find_loop :: "board \<Rightarrow> int \<Rightarrow> pos list \<Rightarrow> error + pos option" where
  "find_loop brd num [] = Inr None"
| "find_loop brd num (field # fields) =
     (case cell brd (fst field) (snd field) of
        Inl e \<Rightarrow> Inl e
      | Inr v \<Rightarrow> if v = num then Inr (Some field) else find_loop brd num fields)"

definition find_num :: "int \<Rightarrow> board \<Rightarrow> int \<Rightarrow> error + pos option" where
  "find_num sz brd num = find_loop brd num (all_fields sz)"

fun get_max_loop :: "board \<Rightarrow> int \<times> pos \<Rightarrow> pos list \<Rightarrow> error + (int \<times> pos)" where
  "get_max_loop brd m [] = Inr m"
| "get_max_loop brd m (field # fields) =
     (case cell brd (fst field) (snd field) of
        Inl e \<Rightarrow> Inl e
      | Inr v \<Rightarrow> get_max_loop brd (if v > fst m then (v, field) else m) fields)"

definition get_max :: "int \<Rightarrow> board \<Rightarrow> error + pos" where
  "get_max sz brd =
     (case get_max_loop brd (0, (0, 0)) (all_fields sz) of
        Inl e \<Rightarrow> Inl e
      | Inr m \<Rightarrow> Inr (snd m))"

section \<open>Verifier\<close>

lemma scan_value_found:
  "scan_value brd r c d fields = Inr (Some f) \<Longrightarrow>
   \<exists>w. cell brd r c = Inr w \<and> cell brd (fst f) (snd f) = Inr (w + d) \<and> f \<in> set fields"
  by (induction fields) (auto split: sum.splits if_splits)

definition verify_measure :: "int \<times> board \<times> pos \<times> int \<times> int \<times> int \<Rightarrow> nat" where
  "verify_measure = (\<lambda>(sz, brd, m, r, c, i).
     (case cell brd r c of
        Inl e \<Rightarrow> 0
      | Inr v \<Rightarrow> (case cell brd (fst m) (snd m) of Inl e \<Rightarrow> 0 | Inr vm \<Rightarrow> nat (vm - v))))"

function verify_loop :: "int \<Rightarrow> board \<Rightarrow> pos \<Rightarrow> int \<Rightarrow> int \<Rightarrow> int \<Rightarrow> error + bool" where
  "verify_loop sz brd m r c i =
     (case cell brd r c of
        Inl e \<Rightarrow> Inl e
      | Inr v \<Rightarrow>
          (case cell brd (fst m) (snd m) of
             Inl e \<Rightarrow> Inl e
           | Inr vm \<Rightarrow>
               if v < vm then
                 (case get_next sz brd r c of
                    Inl e \<Rightarrow> Inl e
                  | Inr None \<Rightarrow> Inl TypeError
                  | Inr (Some f) \<Rightarrow>
                      (case cell brd (fst f) (snd f) of
                         Inl e \<Rightarrow> Inl e
                       | Inr v' \<Rightarrow>
                           if v' \<noteq> i then Inr False
                           else verify_loop sz brd m (fst f) (snd f) (i + 1)))
               else Inr True))"
  by pat_completeness auto
termination
proof (relation "measure verify_measure", goal_cases)
  case 1
  then show ?case by simp
next
  case (2 sz brd m r c i v vm nxt f v')
  have "scan_value brd r c 1 (get_accessible_fields sz r c) = Inr (Some f)"
    using 2(4,5) by (simp add: get_next_def)
  from scan_value_found[OF this] 2(1) 2(6)
  have "v' = v + 1" by auto
  then show ?case
    using 2(1,2,3,6) by (simp add: verify_measure_def)
qed

declare verify_loop.simps [simp del]

definition verify :: "int \<Rightarrow> board \<Rightarrow> error + bool" where
  "verify sz brd =
     (case find_num sz brd 1 of
        Inl e \<Rightarrow> Inl e
      | Inr None \<Rightarrow> Inl TypeError
      | Inr (Some p) \<Rightarrow>
          (case get_max sz brd of
             Inl e \<Rightarrow> Inl e
           | Inr m \<Rightarrow> verify_loop sz brd m (fst p) (snd p) 2))"

section \<open>Reachability analyzer\<close>

definition expand :: "int \<Rightarrow> pos set \<Rightarrow> pos set" where
  "expand sz checked = (\<Union>c\<in>checked. set (get_accessible_fields sz (fst c) (snd c)))"

partial_function (option) spl_loop :: "int \<Rightarrow> pos set \<Rightarrow> pos \<Rightarrow> nat \<Rightarrow> nat option" where
  "spl_loop sz checked target d =
     (if target \<in> checked then Some d
      else spl_loop sz (expand sz checked) target (d + 1))"

definition shortest_path_length :: "int \<Rightarrow> int \<Rightarrow> int \<Rightarrow> int \<Rightarrow> int \<Rightarrow> nat option" where
  "shortest_path_length sz x1 y1 x2 y2 = spl_loop sz {(x1, y1)} (x2, y2) 0"

declare spl_loop.simps [code]

text \<open>
  The rank is a Python \<open>int\<close> or the float \<open>inf\<close>: an \<open>enat\<close>. A search that never
  returns makes the whole rank computation not return (\<open>None\<close>).
\<close>

fun rank_loop :: "int \<Rightarrow> pos \<Rightarrow> enat \<Rightarrow> pos list \<Rightarrow> enat option" where
  "rank_loop sz las min_d [] = Some min_d"
| "rank_loop sz las min_d (field # fields) =
     (case shortest_path_length sz (fst las) (snd las) (fst field) (snd field) of
        None \<Rightarrow> None
      | Some d \<Rightarrow> rank_loop sz las (min (enat d) min_d) fields)"

definition get_rank :: "int \<Rightarrow> board \<Rightarrow> pos option \<Rightarrow> (error + enat) option" where
  "get_rank sz brd las =
     (case (case las of None \<Rightarrow> get_max sz brd | Some l \<Rightarrow> Inr l) of
        Inl e \<Rightarrow> Some (Inl e)
      | Inr l \<Rightarrow>
          (case keep_empty brd (all_fields sz) of
             Inl e \<Rightarrow> Some (Inl e)
           | Inr empty_fields \<Rightarrow> map_option Inr (rank_loop sz l \<infinity> empty_fields)))"

section \<open>Rerouter\<close>

text \<open>
  \<open>reroute\<close> is a generator. Its trace is the sequence of candidates it yields, ended by
  exhaustion (\<open>Stop\<close>), by an exception (\<open>Raised\<close>) or by a computation that never returns
  (\<open>Hang\<close>); a consumer that stops early never reaches the end of the trace.
\<close>

datatype 'a gen = Stop | Yield 'a "'a gen" | Raised error | Hang

fun yields :: "'a gen \<Rightarrow> 'a list" where
  "yields Stop = []"
| "yields (Yield x g) = x # yields g"
| "yields (Raised e) = []"
| "yields Hang = []"

fun possible_ends_loop :: "int \<Rightarrow> board \<Rightarrow> pos list \<Rightarrow> error + pos option list" where
  "possible_ends_loop sz brd [] = Inr []"
| "possible_ends_loop sz brd (field # fields) =
     (case get_next sz brd (fst field) (snd field) of
        Inl e \<Rightarrow> Inl e
      | Inr e \<Rightarrow>
          (case possible_ends_loop sz brd fields of
             Inl err \<Rightarrow> Inl err
           | Inr es \<Rightarrow> Inr (e # es)))"

definition possible_ends :: "int \<Rightarrow> board \<Rightarrow> pos \<Rightarrow> error + pos option list" where
  "possible_ends sz brd las =
     possible_ends_loop sz brd (get_accessible_fields sz (fst las) (snd las))"

text \<open>
  The tuple assignment \<open>b[f1], b[f2] = b[f2], b[f1]\<close> reads \<open>b[f2]\<close>, then \<open>b[f1]\<close>, then
  stores into \<open>b[f1]\<close>, then into \<open>b[f2]\<close>.
\<close>

definition swap_cells :: "board \<Rightarrow> pos \<Rightarrow> pos \<Rightarrow> error + board" where
  "swap_cells b f1 f2 =
     (case cell b (fst f2) (snd f2) of
        Inl e \<Rightarrow> Inl e
      | Inr v2 \<Rightarrow>
          (case cell b (fst f1) (snd f1) of
             Inl e \<Rightarrow> Inl e
           | Inr v1 \<Rightarrow>
               (case set_cell b (fst f1) (snd f1) v2 of
                  Inl e \<Rightarrow> Inl e
                | Inr b1 \<Rightarrow> set_cell b1 (fst f2) (snd f2) v1)))"

text \<open>
  The cursors \<open>f1\<close> and \<open>f2\<close> may become \<open>None\<close>; unpacking \<open>None\<close> in the next round
  raises \<open>TypeError\<close>.
\<close>

fun reverse_loop :: "int \<Rightarrow> nat \<Rightarrow> board \<Rightarrow> pos option \<Rightarrow> pos option \<Rightarrow> error + board" where
  "reverse_loop sz 0 b f1 f2 = Inr b"
| "reverse_loop sz (Suc n) b f1 f2 =
     (case f1 of
        None \<Rightarrow> Inl TypeError
      | Some p1 \<Rightarrow>
          (case get_next sz b (fst p1) (snd p1) of
             Inl e \<Rightarrow> Inl e
           | Inr next_f1 \<Rightarrow>
               (case f2 of
                  None \<Rightarrow> Inl TypeError
                | Some p2 \<Rightarrow>
                    (case get_prev sz b (fst p2) (snd p2) of
                       Inl e \<Rightarrow> Inl e
                     | Inr next_f2 \<Rightarrow>
                         (case swap_cells b p1 p2 of
                            Inl e \<Rightarrow> Inl e
                          | Inr b' \<Rightarrow> reverse_loop sz n b' next_f1 next_f2)))))"

type_synonym candidate = "board \<times> pos \<times> enat"

definition reroute_step :: "int \<Rightarrow> board \<Rightarrow> pos \<Rightarrow> pos option \<Rightarrow> (error + candidate) option" where
  "reroute_step sz brd las en =
     (case cell brd (fst las) (snd las) of
        Inl e \<Rightarrow> Some (Inl e)
      | Inr vl \<Rightarrow>
          (case en of
             None \<Rightarrow> Some (Inl TypeError)
           | Some e \<Rightarrow>
               (case cell brd (fst e) (snd e) of
                  Inl err \<Rightarrow> Some (Inl err)
                | Inr ve \<Rightarrow>
                    (case reverse_loop sz (nat ((vl - ve) div 2 + 1)) brd (Some e) (Some las) of
                       Inl err \<Rightarrow> Some (Inl err)
                     | Inr b \<Rightarrow>
                         (case get_rank sz b None of
                            None \<Rightarrow> None
                          | Some (Inl err) \<Rightarrow> Some (Inl err)
                          | Some (Inr rk) \<Rightarrow> Some (Inr (b, e, rk)))))))"

fun reroute_gen :: "int \<Rightarrow> board \<Rightarrow> pos \<Rightarrow> pos option list \<Rightarrow> candidate gen" where
  "reroute_gen sz brd las [] = Stop"
| "reroute_gen sz brd las (en # ends) =
     (if en = Some las then reroute_gen sz brd las ends
      else
        (case reroute_step sz brd las en of
           None \<Rightarrow> Hang
         | Some (Inl e) \<Rightarrow> Raised e
         | Some (Inr cand) \<Rightarrow> Yield cand (reroute_gen sz brd las ends)))"

definition reroute :: "int \<Rightarrow> board \<Rightarrow> pos \<Rightarrow> candidate gen" where
  "reroute sz brd las =
     (case possible_ends sz brd las of
        Inl e \<Rightarrow> Raised e
      | Inr ends \<Rightarrow> reroute_gen sz brd las ends)"

section \<open>Search controller\<close>

text \<open>
  \<open>solve\<close> returns a Python dict: a list of key/value pairs in insertion order. The
  entry \<open>time\<close> is the difference of two clock readings; the clock is the parameter
  \<open>clock\<close>, giving the value of the \<open>n\<close>-th call of \<open>time()\<close>. Console output
  (\<open>verbose\<close>, \<open>print_solution\<close>) does not change any result and is left out.
\<close>

datatype pyval = PBoard board | PInt int | PFloat real

type_synonym result = "(string \<times> pyval) list"

type_synonym trial = "board \<times> pos"

text \<open>
  How the scan of one generation ends: the two \<open>for\<close> loops run to their end
  (\<open>Continue\<close>), a rank-1 branch got stuck and broke out of both (\<open>Break\<close>), a rank-1
  branch filled the board (\<open>Return\<close>), an exception (\<open>Err\<close>), or no return (\<open>Diverges\<close>).
  \<open>Continue\<close> and \<open>Break\<close> carry \<open>reroute_count\<close> and the list \<open>reroutes\<close>.
\<close>

datatype scan_result =
    Continue int "trial list"
  | Break int "trial list"
  | Return board int
  | Err error
  | Diverges

fun scan_reroutes :: "int \<Rightarrow> candidate gen \<Rightarrow> int \<Rightarrow> trial list \<Rightarrow> scan_result" where
  "scan_reroutes sz Stop reroute_count reroutes = Continue reroute_count reroutes"
| "scan_reroutes sz (Raised e) reroute_count reroutes = Err e"
| "scan_reroutes sz Hang reroute_count reroutes = Diverges"
| "scan_reroutes sz (Yield rerouted g) reroute_count reroutes =
     (let rc = reroute_count + 1; deg1_brd = fst rerouted; p = fst (snd rerouted)
      in if snd (snd rerouted) = 1 then
           (case cell deg1_brd (fst p) (snd p) of
              Inl e \<Rightarrow> Err e
            | Inr num \<Rightarrow>
                (case wandorf_fill sz deg1_brd (fst p) (snd p) num of
                   (brd', Inl e) \<Rightarrow> Err e
                 | (brd', Inr deg1_last) \<Rightarrow>
                     (case cell brd' (fst deg1_last) (snd deg1_last) of
                        Inl e \<Rightarrow> Err e
                      | Inr v \<Rightarrow> if v = sz * sz then Return brd' rc else Break rc reroutes)))
         else scan_reroutes sz g rc (reroutes @ [(deg1_brd, p)]))"

fun scan_boards :: "int \<Rightarrow> trial list \<Rightarrow> int \<Rightarrow> trial list \<Rightarrow> scan_result" where
  "scan_boards sz [] reroute_count reroutes = Continue reroute_count reroutes"
| "scan_boards sz (trial # boards) reroute_count reroutes =
     (case scan_reroutes sz (reroute sz (fst trial) (snd trial)) reroute_count reroutes of
        Continue rc rs \<Rightarrow> scan_boards sz boards rc rs
      | other \<Rightarrow> other)"

partial_function (option) solve_loop ::
  "int \<Rightarrow> (nat \<Rightarrow> real) \<Rightarrow> trial list \<Rightarrow> int \<Rightarrow> int \<Rightarrow> (error + result) option" where
  "solve_loop sz clock boards reroute_count i =
     (case scan_boards sz boards reroute_count [] of
        Continue rc reroutes \<Rightarrow> solve_loop sz clock reroutes rc (i + 1)
      | Break rc reroutes \<Rightarrow> solve_loop sz clock reroutes rc (i + 1)
      | Return deg1_brd rc \<Rightarrow>
          Some (Inr [(''board'', PBoard deg1_brd), (''reroutes'', PInt rc),
                     (''iterations'', PInt (i + 1)),
                     (''time'', PFloat (clock (nat (i + 1) + 1) - clock 0))])
      | Err e \<Rightarrow> Some (Inl e)
      | Diverges \<Rightarrow> None)"

declare solve_loop.simps [code]

text \<open>
  \<open>solve\<close> mutates the caller's board through the first fill only; the first component
  of its value is that board after the call, the second what the call returns or raises.
\<close>

definition solve ::
  "int \<Rightarrow> board \<Rightarrow> int \<Rightarrow> int \<Rightarrow> (nat \<Rightarrow> real) \<Rightarrow> (board \<times> (error + result)) option" where
  "solve sz board start_r start_c clock =
     (case wandorf_fill sz board start_r start_c 1 of
        (board1, Inl e) \<Rightarrow> Some (board1, Inl e)
      | (board1, Inr las) \<Rightarrow>
          (case cell board1 (fst las) (snd las) of
             Inl e \<Rightarrow> Some (board1, Inl e)
           | Inr v \<Rightarrow>
               (case (if v = sz * sz then verify sz board1 else Inr False) of
                  Inl e \<Rightarrow> Some (board1, Inl e)
                | Inr True \<Rightarrow>
                    Some (board1,
                      Inr [(''board'', PBoard board1), (''iterations'', PInt 0),
                           (''reroutes'', PInt 0), (''time'', PFloat (clock 1 - clock 0))])
                | Inr False \<Rightarrow>
                    map_option (Pair board1) (solve_loop sz clock [(board1, las)] 0 0))))"

section \<open>Start coordinates outside the board\<close>

text \<open>A board of the solver's size: \<open>sz\<close> rows of \<open>sz\<close> cells.\<close>

definition wf_board :: "int \<Rightarrow> board \<Rightarrow> bool" where
  "wf_board sz brd \<longleftrightarrow> length brd = nat sz \<and> list_all (\<lambda>row. length row = nat sz) brd"

lemma norm_index_None:
  "i < - int n \<or> int n \<le> i \<Longrightarrow> norm_index n i = None"
  by (auto simp: norm_index_def)

lemma set_cell_out_of_range:
  assumes "wf_board sz brd" and "r < - sz \<or> sz \<le> r \<or> c < - sz \<or> sz \<le> c"
  shows "set_cell brd r c v = Inl IndexError"
proof (cases "norm_index (length brd) r")
  case None
  then show ?thesis by (simp add: set_cell_def)
next
  case (Some i)
  then have i: "i < length brd" by (rule norm_index_less)
  then have len: "length (brd ! i) = nat sz"
    using assms(1) by (simp add: wf_board_def list_all_length)
  have "0 < sz" using i assms(1) by (simp add: wf_board_def)
  have "\<not> (r < - sz \<or> sz \<le> r)"
    using Some assms(1) \<open>0 < sz\<close> by (auto simp: norm_index_def wf_board_def split: if_splits)
  then have "c < - sz \<or> sz \<le> c" using assms(2) by blast
  then have "norm_index (nat sz) c = None"
    using \<open>0 < sz\<close> by (intro norm_index_None) auto
  then show ?thesis using Some len by (simp add: set_cell_def)
qed

text \<open>
  Claim C5, amended. \<open>solve\<close> has no check of the start square and no \<open>InvalidStart\<close>
  outcome. On a board of \<open>sz\<close> rows of \<open>sz\<close> cells, a start with a coordinate at or
  above \<open>sz\<close>, or below \<open>-sz\<close>, makes the first store \<open>brd[r][c] = num\<close> raise
  \<open>IndexError\<close>, so \<open>solve\<close> raises it and the board is as it was.
\<close>

theorem solve_start_out_of_range:
  assumes "wf_board sz brd" and "r < - sz \<or> sz \<le> r \<or> c < - sz \<or> sz \<le> c"
  shows "solve sz brd r c clock = Some (brd, Inl IndexError)"
proof -
  have "wandorf_fill sz brd r c 1 = (brd, Inl IndexError)"
    by (subst wandorf_fill.simps) (simp add: set_cell_out_of_range[OF assms])
  then show ?thesis by (simp add: solve_def)
qed

theorem solve_start_out_of_range_witness:
  "wf_board 3 (create_empty_board 3) \<and>
   solve 3 (create_empty_board 3) 3 0 (\<lambda>n. 0) = Some (create_empty_board 3, Inl IndexError)"
proof -
  have wf: "wf_board 3 (create_empty_board 3)"
    by (simp add: wf_board_def create_empty_board_def list_all_iff)
  have "(3::int) < - 3 \<or> (3::int) \<le> 3 \<or> (0::int) < - 3 \<or> (3::int) \<le> 0" by simp
  from solve_start_out_of_range[OF wf this] wf show ?thesis by simp
qed

text \<open>
  A negative start coordinate in \<open>[-sz, -1]\<close> is not rejected: Python indexing counts
  it from the end. On the 1x1 board the start \<open>(-1, -1)\<close> writes 1 into the only
  square and \<open>solve\<close> returns a result.
\<close>

theorem solve_negative_start_counterexample:
  "solve 1 (create_empty_board 1) (- 1) (- 1) (\<lambda>n. 0) =
     Some ([[1]], Inr [(''board'', PBoard [[1]]), (''iterations'', PInt 0),
                       (''reroutes'', PInt 0), (''time'', PFloat 0)]) \<and>
   create_empty_board 1 = [[0]]"
  by code_simp

section \<open>Distances in the knight-move graph\<close>

text \<open>A position on the board of size \<open>sz\<close>.\<close>

definition in_grid :: "int \<Rightarrow> pos \<Rightarrow> bool" where
  "in_grid sz p \<longleftrightarrow> 0 \<le> fst p \<and> fst p < sz \<and> 0 \<le> snd p \<and> snd p < sz"

lemma accessible_iff:
  "q \<in> set (get_accessible_fields sz r c) \<longleftrightarrow>
   in_grid sz q \<and> (fst q - r, snd q - c) \<in> set deltas"
proof (cases q)
  case (Pair a b)
  have "(a - r, b - c) \<in> set deltas \<Longrightarrow> 0 \<le> a \<Longrightarrow> a < sz \<Longrightarrow> 0 \<le> b \<Longrightarrow> b < sz \<Longrightarrow>
        (a, b) \<in> (\<lambda>delta. (r + fst delta, c + snd delta)) `
          {delta \<in> set deltas. 0 \<le> r + fst delta \<and> r + fst delta < sz \<and>
                                 0 \<le> c + snd delta \<and> c + snd delta < sz}"
    by (rule image_eqI[where x = "(a - r, b - c)"]) simp_all
  then show ?thesis
    unfolding get_accessible_fields_def in_grid_def Pair by auto
qed

lemma deltas_neg: "(a, b) \<in> set deltas \<Longrightarrow> (- a, - b) \<in> set deltas"
  by (auto simp: deltas_def)

lemma accessible_sym:
  assumes "in_grid sz p" and "q \<in> set (get_accessible_fields sz (fst p) (snd p))"
  shows "p \<in> set (get_accessible_fields sz (fst q) (snd q))"
proof -
  have "(fst q - fst p, snd q - snd p) \<in> set deltas"
    using assms(2) by (simp add: accessible_iff)
  from deltas_neg[OF this] show ?thesis
    using assms(1) by (simp add: accessible_iff)
qed

lemma expand_mem:
  "x \<in> expand sz S \<longleftrightarrow> (\<exists>s\<in>S. x \<in> set (get_accessible_fields sz (fst s) (snd s)))"
  by (simp add: expand_def)

lemma funpow_expand_mem:
  "x \<in> (expand sz ^^ n) S \<longleftrightarrow> (\<exists>s\<in>S. x \<in> (expand sz ^^ n) {s})"
proof (induction n arbitrary: x)
  case 0
  then show ?case by simp
next
  case (Suc n)
  have "x \<in> (expand sz ^^ Suc n) S \<longleftrightarrow>
        (\<exists>t\<in>(expand sz ^^ n) S. x \<in> set (get_accessible_fields sz (fst t) (snd t)))"
    by (simp add: expand_mem)
  also have "\<dots> \<longleftrightarrow> (\<exists>s\<in>S. \<exists>t\<in>(expand sz ^^ n) {s}.
        x \<in> set (get_accessible_fields sz (fst t) (snd t)))"
    using Suc.IH by blast
  also have "\<dots> \<longleftrightarrow> (\<exists>s\<in>S. x \<in> (expand sz ^^ Suc n) {s})"
    by (simp add: expand_mem)
  finally show ?case .
qed

lemma reach_Suc_left:
  "x \<in> (expand sz ^^ Suc n) {a} \<longleftrightarrow>
   (\<exists>c\<in>set (get_accessible_fields sz (fst a) (snd a)). x \<in> (expand sz ^^ n) {c})"
proof -
  have "(expand sz ^^ Suc n) {a} = (expand sz ^^ n) (expand sz {a})"
    by (simp add: funpow_swap1)
  moreover have "x \<in> (expand sz ^^ n) (expand sz {a}) \<longleftrightarrow>
      (\<exists>c\<in>expand sz {a}. x \<in> (expand sz ^^ n) {c})"
    by (rule funpow_expand_mem)
  moreover have "expand sz {a} = set (get_accessible_fields sz (fst a) (snd a))"
    by (simp add: expand_def)
  ultimately show ?thesis by metis
qed

lemma reach_in_grid:
  "x \<in> (expand sz ^^ n) {a} \<Longrightarrow> in_grid sz a \<Longrightarrow> in_grid sz x"
  by (cases n) (auto simp: expand_mem accessible_iff)

lemma reach_sym:
  "in_grid sz a \<Longrightarrow> b \<in> (expand sz ^^ n) {a} \<Longrightarrow> a \<in> (expand sz ^^ n) {b}"
proof (induction n arbitrary: a b)
  case 0
  then show ?case by simp
next
  case (Suc n)
  from Suc.prems(2) obtain c where c: "c \<in> (expand sz ^^ n) {a}"
    and b: "b \<in> set (get_accessible_fields sz (fst c) (snd c))"
    by (auto simp: expand_mem)
  have gc: "in_grid sz c" using reach_in_grid[OF c Suc.prems(1)] .
  have "a \<in> (expand sz ^^ n) {c}" using Suc.IH[OF Suc.prems(1) c] .
  moreover have "c \<in> set (get_accessible_fields sz (fst b) (snd b))"
    using accessible_sym[OF gc b] .
  ultimately show ?case
    unfolding reach_Suc_left by blast
qed

lemma spl_loop_least:
  "t \<in> (expand sz ^^ k) S \<Longrightarrow> (\<forall>j<k. t \<notin> (expand sz ^^ j) S) \<Longrightarrow>
   spl_loop sz S t d = Some (d + k)"
proof (induction k arbitrary: S d)
  case 0
  then show ?case by (simp add: spl_loop.simps)
next
  case (Suc k)
  have notin: "t \<notin> S" using Suc.prems(2)[rule_format, of 0] by simp
  have 1: "t \<in> (expand sz ^^ k) (expand sz S)"
    using Suc.prems(1) by (simp add: funpow_swap1)
  have 2: "\<forall>j<k. t \<notin> (expand sz ^^ j) (expand sz S)"
  proof (intro allI impI)
    fix j assume "j < k"
    then have "t \<notin> (expand sz ^^ Suc j) S" using Suc.prems(2) by auto
    then show "t \<notin> (expand sz ^^ j) (expand sz S)" by (simp add: funpow_swap1)
  qed
  have "spl_loop sz S t d = spl_loop sz (expand sz S) t (d + 1)"
    using notin by (subst spl_loop.simps) simp
  also have "\<dots> = Some (d + 1 + k)" using Suc.IH[OF 1 2] .
  finally show ?case by simp
qed

lemma spl_loop_Some_reach:
  assumes "spl_loop sz S t d = Some y"
  shows "\<exists>n. t \<in> (expand sz ^^ n) S"
proof (rule spl_loop.raw_induct[where P = "\<lambda>sz S t d y. \<exists>n. t \<in> (expand sz ^^ n) S", OF _ assms],
    goal_cases)
  case (1 f sz S t d y)
  show ?case
  proof (cases "t \<in> S")
    case True
    then have "t \<in> (expand sz ^^ 0) S" by simp
    then show ?thesis by blast
  next
    case False
    then have "f sz (expand sz S) t (d + 1) = Some y" using 1(2) by simp
    from 1(1)[OF this] obtain n where "t \<in> (expand sz ^^ n) (expand sz S)" by blast
    then have "t \<in> (expand sz ^^ Suc n) S" by (simp add: funpow_swap1)
    then show ?thesis by blast
  qed
qed

lemma spl_loop_char:
  "spl_loop sz S t d =
     (if \<exists>n. t \<in> (expand sz ^^ n) S then Some (d + (LEAST n. t \<in> (expand sz ^^ n) S)) else None)"
proof (cases "\<exists>n. t \<in> (expand sz ^^ n) S")
  case True
  let ?k = "LEAST n. t \<in> (expand sz ^^ n) S"
  have "t \<in> (expand sz ^^ ?k) S" using True by (metis (mono_tags, lifting) LeastI)
  moreover have "\<forall>j<?k. t \<notin> (expand sz ^^ j) S" using not_less_Least by blast
  ultimately show ?thesis using True spl_loop_least by simp
next
  case False
  then have "spl_loop sz S t d = None"
    using spl_loop_Some_reach by (cases "spl_loop sz S t d") blast+
  then show ?thesis using False by simp
qed

lemma spl_loop_reach_bound:
  assumes "t \<in> (expand sz ^^ n) S"
  shows "\<exists>k\<le>n. spl_loop sz S t d = Some (d + k)"
proof -
  have "(LEAST m. t \<in> (expand sz ^^ m) S) \<le> n"
    using assms by (rule Least_le)
  then show ?thesis
    using assms unfolding spl_loop_char by auto
qed

text \<open>
  Claim C7. The distance from a square to itself is 0. For two squares of the board the
  search from \<open>a\<close> to \<open>b\<close> and the search from \<open>b\<close> to \<open>a\<close> behave alike: both
  return the same number, or neither returns. When \<open>b\<close> is reachable from \<open>a\<close> in
  \<open>n\<close> moves, both return the same number \<open>d \<le> n\<close>.
\<close>

theorem shortest_path_length_symmetric:
  "shortest_path_length sz x y x y = Some 0 \<and>
   (in_grid sz (x1, y1) \<and> in_grid sz (x2, y2) \<longrightarrow>
      shortest_path_length sz x1 y1 x2 y2 = shortest_path_length sz x2 y2 x1 y1 \<and>
      ((x2, y2) \<in> (expand sz ^^ n) {(x1, y1)} \<longrightarrow>
         (\<exists>d\<le>n. shortest_path_length sz x1 y1 x2 y2 = Some d \<and>
                 shortest_path_length sz x2 y2 x1 y1 = Some d)))"
proof -
  have refl: "shortest_path_length sz x y x y = Some 0"
    by (simp add: shortest_path_length_def spl_loop.simps)
  have sym: "shortest_path_length sz x1 y1 x2 y2 = shortest_path_length sz x2 y2 x1 y1"
    if g: "in_grid sz (x1, y1)" "in_grid sz (x2, y2)"
  proof -
    have "\<And>n. (x2, y2) \<in> (expand sz ^^ n) {(x1, y1)} \<longleftrightarrow> (x1, y1) \<in> (expand sz ^^ n) {(x2, y2)}"
      using reach_sym g by blast
    then show ?thesis
      unfolding shortest_path_length_def spl_loop_char by simp
  qed
  have ret: "\<exists>d\<le>n. shortest_path_length sz x1 y1 x2 y2 = Some d"
    if "(x2, y2) \<in> (expand sz ^^ n) {(x1, y1)}"
    using spl_loop_reach_bound[OF that, of 0] by (simp add: shortest_path_length_def)
  from refl sym ret show ?thesis by metis
qed

theorem shortest_path_length_symmetric_witness:
  "shortest_path_length 5 2 2 2 2 = Some 0 \<and>
   in_grid 5 (0, 0) \<and> in_grid 5 (1, 2) \<and>
   (1, 2) \<in> (expand 5 ^^ 1) {(0, 0)} \<and>
   shortest_path_length 5 0 0 1 2 = Some 1 \<and>
   shortest_path_length 5 1 2 0 0 = Some 1"
proof -
  have g: "in_grid 5 (0, 0)" "in_grid 5 (1, 2)"
    by (simp_all add: in_grid_def)
  have r: "(1, 2) \<in> (expand 5 ^^ 1) {(0, 0)}"
    by (simp add: expand_def accessible_iff in_grid_def deltas_def)
  have e: "shortest_path_length 5 0 0 1 2 = Some 1"
    by code_simp
  note t = shortest_path_length_symmetric[of 5 2 2 0 0 1 2 1]
  from t have a: "shortest_path_length 5 2 2 2 2 = Some 0"
    by (rule conjunct1)
  from t g have b: "shortest_path_length 5 0 0 1 2 = shortest_path_length 5 1 2 0 0"
    by blast
  from a b e g r show ?thesis
    by (intro conjI) simp_all
qed

section \<open>The verifier on boards with a repeated value\<close>

lemma verify_loop_not_False:
  "cell brd r c = Inr (i - 1) \<Longrightarrow> verify_loop sz brd m r c i \<noteq> Inr False"
proof (induction sz brd m r c i rule: verify_loop.induct)
  case (1 sz brd m r c i)
  show ?case
  proof (cases "cell brd (fst m) (snd m)")
    case (Inl e)
    then show ?thesis using 1(2) by (subst verify_loop.simps) simp
  next
    case vm: (Inr vm)
    show ?thesis
    proof (cases "i - 1 < vm")
      case False
      then show ?thesis using 1(2) vm by (subst verify_loop.simps) simp
    next
      case lt: True
      show ?thesis
      proof (cases "get_next sz brd r c")
        case (Inl e)
        then show ?thesis using 1(2) vm lt by (subst verify_loop.simps) simp
      next
        case nx: (Inr nxt)
        show ?thesis
        proof (cases nxt)
          case None
          then show ?thesis using 1(2) vm lt nx by (subst verify_loop.simps) simp
        next
          case (Some f)
          have "scan_value brd r c 1 (get_accessible_fields sz r c) = Inr (Some f)"
            using nx Some by (simp add: get_next_def)
          from scan_value_found[OF this] 1(2)
          have cf: "cell brd (fst f) (snd f) = Inr i" by auto
          then have "cell brd (fst f) (snd f) = Inr (i + 1 - 1)" by simp
          from 1(1)[OF 1(2) vm lt nx Some cf _ this]
          have "verify_loop sz brd m (fst f) (snd f) (i + 1) \<noteq> Inr False" by simp
          then show ?thesis
            using 1(2) vm lt nx Some cf by (subst verify_loop.simps) simp
        qed
      qed
    qed
  qed
qed

lemma verify_never_False: "verify sz brd \<noteq> Inr False"
proof (cases "find_num sz brd 1")
  case (Inl e)
  then show ?thesis by (simp add: verify_def)
next
  case (Inr found)
  show ?thesis
  proof (cases found)
    case None
    then show ?thesis using Inr by (simp add: verify_def)
  next
    case (Some p)
    have "find_loop brd 1 fields = Inr (Some p) \<Longrightarrow> cell brd (fst p) (snd p) = Inr 1" for fields
      by (induction fields) (auto split: sum.splits if_splits)
    then have "cell brd (fst p) (snd p) = Inr (2 - 1)"
      using Inr Some by (simp add: find_num_def)
    from verify_loop_not_False[OF this] show ?thesis
      using Inr Some by (simp add: verify_def split: sum.splits)
  qed
qed

text \<open>
  Claim C6. On the 3x3 board below the value 1 stands on two squares, so the values are
  not one chain without repeats; \<open>verify\<close> follows 1 to 2 from the first square holding
  1 and returns \<open>True\<close>. (\<open>verify\<close> never returns \<open>False\<close> at all: the comparison with
  \<open>i\<close> cannot fail after \<open>get_next\<close>, and a broken chain raises \<open>TypeError\<close>.)
\<close>

theorem verify_accepts_repeated_value:
  "verify 3 [[1, 0, 0], [0, 0, 2], [0, 0, 1]] = Inr True \<and>
   count_list (concat [[1, 0, 0], [0, 0, 2], [0, 0, (1::int)]]) 1 = 2"
  by code_simp

section \<open>The search on the 3x3 board\<close>

lemma solve_loop_Some_nonempty:
  assumes "solve_loop sz clock boards rc i = Some y"
  shows "boards \<noteq> []"
proof (rule solve_loop.raw_induct[where P = "\<lambda>sz clock boards rc i y. boards \<noteq> []", OF _ assms],
    goal_cases)
  case (1 f sz clock boards rc i y)
  show ?case
  proof
    assume "boards = []"
    then have "f sz clock [] rc (i + 1) = Some y" using 1(2) by simp
    from 1(1)[OF this] show False by simp
  qed
qed

lemma solve_loop_empty: "solve_loop sz clock [] rc i = None"
  using solve_loop_Some_nonempty by (cases "solve_loop sz clock [] rc i") blast+

lemma center_not_accessible:
  "in_grid 3 s \<Longrightarrow> (1, 1) \<notin> set (get_accessible_fields 3 (fst s) (snd s))"
  by (auto simp: accessible_iff in_grid_def deltas_def)

lemma center_unreachable:
  assumes "in_grid 3 l" and "l \<noteq> (1, 1)"
  shows "(1, 1) \<notin> (expand 3 ^^ n) {l}"
proof (cases n)
  case 0
  then show ?thesis using assms(2) by simp
next
  case (Suc m)
  show ?thesis
  proof
    assume "(1, 1) \<in> (expand 3 ^^ n) {l}"
    then obtain s where s: "s \<in> (expand 3 ^^ m) {l}"
      and "(1, 1) \<in> set (get_accessible_fields 3 (fst s) (snd s))"
      by (auto simp: Suc expand_mem)
    moreover have "in_grid 3 s" using reach_in_grid[OF s assms(1)] .
    ultimately show False using center_not_accessible by blast
  qed
qed

lemma rank_loop_diverges:
  assumes "shortest_path_length sz (fst l) (snd l) (fst t) (snd t) = None" and "t \<in> set fields"
  shows "rank_loop sz l m fields = None"
  using assms(2)
proof (induction fields arbitrary: m)
  case Nil
  then show ?case by simp
next
  case (Cons f fields)
  show ?case
  proof (cases "shortest_path_length sz (fst l) (snd l) (fst f) (snd f)")
    case None
    then show ?thesis by simp
  next
    case (Some d)
    then have "f \<noteq> t" using assms(1) by auto
    then have "t \<in> set fields" using Cons.prems by simp
    from Cons.IH[OF this] show ?thesis using Some by simp
  qed
qed

lemma get_rank_3_center_empty:
  assumes "keep_empty b (all_fields 3) = Inr fields" and "(1, 1) \<in> set fields"
    and "get_max 3 b = Inr l" and "in_grid 3 l" and "l \<noteq> (1, 1)"
  shows "get_rank 3 b None = None"
proof -
  have "shortest_path_length 3 (fst l) (snd l) 1 1 = None"
    unfolding shortest_path_length_def spl_loop_char
    using center_unreachable[OF assms(4,5)] by simp
  then have "rank_loop 3 l \<infinity> fields = None"
    using assms(2) by (intro rank_loop_diverges[where t = "(1, 1)"]) simp_all
  then show ?thesis
    using assms(1,3) by (simp add: get_rank_def)
qed

lemma solve3_11: "solve 3 (create_empty_board 3) 1 1 clock = None"
proof -
  have f: "wandorf_fill 3 (create_empty_board 3) 1 1 1 = ([[0, 0, 0], [0, 1, 0], [0, 0, 0]], Inr (1, 1))"
    by code_simp
  have cl: "cell [[0, 0, 0], [0, 1, 0], [0, 0, 0]] 1 1 = Inr 1"
    by code_simp
  have r: "reroute 3 [[0, 0, 0], [0, 1, 0], [0, 0, 0]] (1, 1) = Stop"
    by code_simp
  show ?thesis
    by (simp add: solve_def f cl solve_loop.simps[of 3 clock "[x]" for x] r solve_loop_empty)
qed

lemma fill3_00:
  "wandorf_fill 3 (create_empty_board 3) 0 0 1 =
     ([[1, 6, 3], [4, 0, 8], [7, 2, 5]], Inr (1, 2))"
  by code_simp

lemma hang3_00:
  "reroute 3 [[1, 6, 3], [4, 0, 8], [7, 2, 5]] (1, 2) = Hang"
proof -
  let ?b = "[[1, 6, 3], [4, 0, 8], [7, 2, 5]]"
  let ?b' = "[[1, 4, 7], [6, 0, 2], [3, 8, 5]]"
  have pe: "possible_ends 3 ?b (1, 2) = Inr [Some (2, 1), Some (1, 2)]"
    by code_simp
  have cl: "cell ?b 1 2 = Inr 8" and ce: "cell ?b 2 1 = Inr 2"
    by code_simp+
  have rl: "reverse_loop 3 4 ?b (Some (2, 1)) (Some (1, 2)) = Inr ?b'"
    by code_simp
  have ke: "keep_empty ?b' (all_fields 3) = Inr [(1, 1)]"
    by code_simp
  have gm: "get_max 3 ?b' = Inr (2, 1)"
    by code_simp
  have "get_rank 3 ?b' None = None"
    by (rule get_rank_3_center_empty[OF ke _ gm]) (simp_all add: in_grid_def)
  then have "reroute_step 3 ?b (1, 2) (Some (2, 1)) = None"
    by (simp add: reroute_step_def cl ce rl)
  then show ?thesis
    by (simp add: reroute_def pe)
qed

lemma solve3_00: "solve 3 (create_empty_board 3) 0 0 clock = None"
proof -
  have cl: "cell [[1, 6, 3], [4, 0, 8], [7, 2, 5]] 1 2 = Inr 8"
    by code_simp
  show ?thesis
    by (simp add: solve_def fill3_00 cl solve_loop.simps[of 3 clock "[x]" for x] hang3_00)
qed

lemma fill3_01:
  "wandorf_fill 3 (create_empty_board 3) 0 1 1 =
     ([[4, 1, 6], [7, 0, 3], [2, 5, 8]], Inr (2, 2))"
  by code_simp

lemma hang3_01:
  "reroute 3 [[4, 1, 6], [7, 0, 3], [2, 5, 8]] (2, 2) = Hang"
proof -
  let ?b = "[[4, 1, 6], [7, 0, 3], [2, 5, 8]]"
  let ?b' = "[[6, 1, 4], [3, 0, 7], [8, 5, 2]]"
  have pe: "possible_ends 3 ?b (2, 2) = Inr [Some (2, 0), Some (2, 2)]"
    by code_simp
  have cl: "cell ?b 2 2 = Inr 8" and ce: "cell ?b 2 0 = Inr 2"
    by code_simp+
  have rl: "reverse_loop 3 4 ?b (Some (2, 0)) (Some (2, 2)) = Inr ?b'"
    by code_simp
  have ke: "keep_empty ?b' (all_fields 3) = Inr [(1, 1)]"
    by code_simp
  have gm: "get_max 3 ?b' = Inr (2, 0)"
    by code_simp
  have "get_rank 3 ?b' None = None"
    by (rule get_rank_3_center_empty[OF ke _ gm]) (simp_all add: in_grid_def)
  then have "reroute_step 3 ?b (2, 2) (Some (2, 0)) = None"
    by (simp add: reroute_step_def cl ce rl)
  then show ?thesis
    by (simp add: reroute_def pe)
qed

lemma solve3_01: "solve 3 (create_empty_board 3) 0 1 clock = None"
proof -
  have cl: "cell [[4, 1, 6], [7, 0, 3], [2, 5, 8]] 2 2 = Inr 8"
    by code_simp
  show ?thesis
    by (simp add: solve_def fill3_01 cl solve_loop.simps[of 3 clock "[x]" for x] hang3_01)
qed

lemma fill3_02:
  "wandorf_fill 3 (create_empty_board 3) 0 2 1 =
     ([[7, 4, 1], [2, 0, 6], [5, 8, 3]], Inr (2, 1))"
  by code_simp

lemma hang3_02:
  "reroute 3 [[7, 4, 1], [2, 0, 6], [5, 8, 3]] (2, 1) = Hang"
proof -
  let ?b = "[[7, 4, 1], [2, 0, 6], [5, 8, 3]]"
  let ?b' = "[[3, 6, 1], [8, 0, 4], [5, 2, 7]]"
  have pe: "possible_ends 3 ?b (2, 1) = Inr [Some (1, 0), Some (2, 1)]"
    by code_simp
  have cl: "cell ?b 2 1 = Inr 8" and ce: "cell ?b 1 0 = Inr 2"
    by code_simp+
  have rl: "reverse_loop 3 4 ?b (Some (1, 0)) (Some (2, 1)) = Inr ?b'"
    by code_simp
  have ke: "keep_empty ?b' (all_fields 3) = Inr [(1, 1)]"
    by code_simp
  have gm: "get_max 3 ?b' = Inr (1, 0)"
    by code_simp
  have "get_rank 3 ?b' None = None"
    by (rule get_rank_3_center_empty[OF ke _ gm]) (simp_all add: in_grid_def)
  then have "reroute_step 3 ?b (2, 1) (Some (1, 0)) = None"
    by (simp add: reroute_step_def cl ce rl)
  then show ?thesis
    by (simp add: reroute_def pe)
qed

lemma solve3_02: "solve 3 (create_empty_board 3) 0 2 clock = None"
proof -
  have cl: "cell [[7, 4, 1], [2, 0, 6], [5, 8, 3]] 2 1 = Inr 8"
    by code_simp
  show ?thesis
    by (simp add: solve_def fill3_02 cl solve_loop.simps[of 3 clock "[x]" for x] hang3_02)
qed

lemma fill3_10:
  "wandorf_fill 3 (create_empty_board 3) 1 0 1 =
     ([[4, 7, 2], [1, 0, 5], [6, 3, 8]], Inr (2, 2))"
  by code_simp

lemma hang3_10:
  "reroute 3 [[4, 7, 2], [1, 0, 5], [6, 3, 8]] (2, 2) = Hang"
proof -
  let ?b = "[[4, 7, 2], [1, 0, 5], [6, 3, 8]]"
  let ?b' = "[[6, 3, 8], [1, 0, 5], [4, 7, 2]]"
  have pe: "possible_ends 3 ?b (2, 2) = Inr [Some (2, 2), Some (0, 2)]"
    by code_simp
  have cl: "cell ?b 2 2 = Inr 8" and ce: "cell ?b 0 2 = Inr 2"
    by code_simp+
  have rl: "reverse_loop 3 4 ?b (Some (0, 2)) (Some (2, 2)) = Inr ?b'"
    by code_simp
  have ke: "keep_empty ?b' (all_fields 3) = Inr [(1, 1)]"
    by code_simp
  have gm: "get_max 3 ?b' = Inr (0, 2)"
    by code_simp
  have "get_rank 3 ?b' None = None"
    by (rule get_rank_3_center_empty[OF ke _ gm]) (simp_all add: in_grid_def)
  then have "reroute_step 3 ?b (2, 2) (Some (0, 2)) = None"
    by (simp add: reroute_step_def cl ce rl)
  then show ?thesis
    by (simp add: reroute_def pe)
qed

lemma solve3_10: "solve 3 (create_empty_board 3) 1 0 clock = None"
proof -
  have cl: "cell [[4, 7, 2], [1, 0, 5], [6, 3, 8]] 2 2 = Inr 8"
    by code_simp
  show ?thesis
    by (simp add: solve_def fill3_10 cl solve_loop.simps[of 3 clock "[x]" for x] hang3_10)
qed

lemma fill3_12:
  "wandorf_fill 3 (create_empty_board 3) 1 2 1 =
     ([[2, 7, 4], [5, 0, 1], [8, 3, 6]], Inr (2, 0))"
  by code_simp

lemma hang3_12:
  "reroute 3 [[2, 7, 4], [5, 0, 1], [8, 3, 6]] (2, 0) = Hang"
proof -
  let ?b = "[[2, 7, 4], [5, 0, 1], [8, 3, 6]]"
  let ?b' = "[[8, 3, 6], [5, 0, 1], [2, 7, 4]]"
  have pe: "possible_ends 3 ?b (2, 0) = Inr [Some (0, 0), Some (2, 0)]"
    by code_simp
  have cl: "cell ?b 2 0 = Inr 8" and ce: "cell ?b 0 0 = Inr 2"
    by code_simp+
  have rl: "reverse_loop 3 4 ?b (Some (0, 0)) (Some (2, 0)) = Inr ?b'"
    by code_simp
  have ke: "keep_empty ?b' (all_fields 3) = Inr [(1, 1)]"
    by code_simp
  have gm: "get_max 3 ?b' = Inr (0, 0)"
    by code_simp
  have "get_rank 3 ?b' None = None"
    by (rule get_rank_3_center_empty[OF ke _ gm]) (simp_all add: in_grid_def)
  then have "reroute_step 3 ?b (2, 0) (Some (0, 0)) = None"
    by (simp add: reroute_step_def cl ce rl)
  then show ?thesis
    by (simp add: reroute_def pe)
qed

lemma solve3_12: "solve 3 (create_empty_board 3) 1 2 clock = None"
proof -
  have cl: "cell [[2, 7, 4], [5, 0, 1], [8, 3, 6]] 2 0 = Inr 8"
    by code_simp
  show ?thesis
    by (simp add: solve_def fill3_12 cl solve_loop.simps[of 3 clock "[x]" for x] hang3_12)
qed

lemma fill3_20:
  "wandorf_fill 3 (create_empty_board 3) 2 0 1 =
     ([[3, 8, 5], [6, 0, 2], [1, 4, 7]], Inr (0, 1))"
  by code_simp

lemma hang3_20:
  "reroute 3 [[3, 8, 5], [6, 0, 2], [1, 4, 7]] (0, 1) = Hang"
proof -
  let ?b = "[[3, 8, 5], [6, 0, 2], [1, 4, 7]]"
  let ?b' = "[[7, 2, 5], [4, 0, 8], [1, 6, 3]]"
  have pe: "possible_ends 3 ?b (0, 1) = Inr [Some (1, 2), Some (0, 1)]"
    by code_simp
  have cl: "cell ?b 0 1 = Inr 8" and ce: "cell ?b 1 2 = Inr 2"
    by code_simp+
  have rl: "reverse_loop 3 4 ?b (Some (1, 2)) (Some (0, 1)) = Inr ?b'"
    by code_simp
  have ke: "keep_empty ?b' (all_fields 3) = Inr [(1, 1)]"
    by code_simp
  have gm: "get_max 3 ?b' = Inr (1, 2)"
    by code_simp
  have "get_rank 3 ?b' None = None"
    by (rule get_rank_3_center_empty[OF ke _ gm]) (simp_all add: in_grid_def)
  then have "reroute_step 3 ?b (0, 1) (Some (1, 2)) = None"
    by (simp add: reroute_step_def cl ce rl)
  then show ?thesis
    by (simp add: reroute_def pe)
qed

lemma solve3_20: "solve 3 (create_empty_board 3) 2 0 clock = None"
proof -
  have cl: "cell [[3, 8, 5], [6, 0, 2], [1, 4, 7]] 0 1 = Inr 8"
    by code_simp
  show ?thesis
    by (simp add: solve_def fill3_20 cl solve_loop.simps[of 3 clock "[x]" for x] hang3_20)
qed

lemma fill3_21:
  "wandorf_fill 3 (create_empty_board 3) 2 1 1 =
     ([[8, 5, 2], [3, 0, 7], [6, 1, 4]], Inr (0, 0))"
  by code_simp

lemma hang3_21:
  "reroute 3 [[8, 5, 2], [3, 0, 7], [6, 1, 4]] (0, 0) = Hang"
proof -
  let ?b = "[[8, 5, 2], [3, 0, 7], [6, 1, 4]]"
  let ?b' = "[[2, 5, 8], [7, 0, 3], [4, 1, 6]]"
  have pe: "possible_ends 3 ?b (0, 0) = Inr [Some (0, 2), Some (0, 0)]"
    by code_simp
  have cl: "cell ?b 0 0 = Inr 8" and ce: "cell ?b 0 2 = Inr 2"
    by code_simp+
  have rl: "reverse_loop 3 4 ?b (Some (0, 2)) (Some (0, 0)) = Inr ?b'"
    by code_simp
  have ke: "keep_empty ?b' (all_fields 3) = Inr [(1, 1)]"
    by code_simp
  have gm: "get_max 3 ?b' = Inr (0, 2)"
    by code_simp
  have "get_rank 3 ?b' None = None"
    by (rule get_rank_3_center_empty[OF ke _ gm]) (simp_all add: in_grid_def)
  then have "reroute_step 3 ?b (0, 0) (Some (0, 2)) = None"
    by (simp add: reroute_step_def cl ce rl)
  then show ?thesis
    by (simp add: reroute_def pe)
qed

lemma solve3_21: "solve 3 (create_empty_board 3) 2 1 clock = None"
proof -
  have cl: "cell [[8, 5, 2], [3, 0, 7], [6, 1, 4]] 0 0 = Inr 8"
    by code_simp
  show ?thesis
    by (simp add: solve_def fill3_21 cl solve_loop.simps[of 3 clock "[x]" for x] hang3_21)
qed

lemma fill3_22:
  "wandorf_fill 3 (create_empty_board 3) 2 2 1 =
     ([[5, 2, 7], [8, 0, 4], [3, 6, 1]], Inr (1, 0))"
  by code_simp

lemma hang3_22:
  "reroute 3 [[5, 2, 7], [8, 0, 4], [3, 6, 1]] (1, 0) = Hang"
proof -
  let ?b = "[[5, 2, 7], [8, 0, 4], [3, 6, 1]]"
  let ?b' = "[[5, 8, 3], [2, 0, 6], [7, 4, 1]]"
  have pe: "possible_ends 3 ?b (1, 0) = Inr [Some (1, 0), Some (0, 1)]"
    by code_simp
  have cl: "cell ?b 1 0 = Inr 8" and ce: "cell ?b 0 1 = Inr 2"
    by code_simp+
  have rl: "reverse_loop 3 4 ?b (Some (0, 1)) (Some (1, 0)) = Inr ?b'"
    by code_simp
  have ke: "keep_empty ?b' (all_fields 3) = Inr [(1, 1)]"
    by code_simp
  have gm: "get_max 3 ?b' = Inr (0, 1)"
    by code_simp
  have "get_rank 3 ?b' None = None"
    by (rule get_rank_3_center_empty[OF ke _ gm]) (simp_all add: in_grid_def)
  then have "reroute_step 3 ?b (1, 0) (Some (0, 1)) = None"
    by (simp add: reroute_step_def cl ce rl)
  then show ?thesis
    by (simp add: reroute_def pe)
qed

lemma solve3_22: "solve 3 (create_empty_board 3) 2 2 clock = None"
proof -
  have cl: "cell [[5, 2, 7], [8, 0, 4], [3, 6, 1]] 1 0 = Inr 8"
    by code_simp
  show ?thesis
    by (simp add: solve_def fill3_22 cl solve_loop.simps[of 3 clock "[x]" for x] hang3_22)
qed

text \<open>
  Claim C1. On the 3x3 board \<open>solve\<close> never returns, from any start square. From the
  centre the first generation has no reroute candidate, the list \<open>boards\<close> becomes
  empty and the \<open>while\<close> loop runs on with the empty list for ever: \<open>solve_loop\<close>
  on an empty generation does not return, for any board size. From every other start
  the first reroute asks for the rank of a board whose only empty square is the centre,
  which no knight move reaches, and \<open>shortest_path_length\<close> does not return.
\<close>

theorem solve_3x3_never_returns:
  "(\<forall>r c. 0 \<le> r \<and> r < 3 \<and> 0 \<le> c \<and> c < 3 \<longrightarrow>
      solve 3 (create_empty_board 3) r c clock = None) \<and>
   solve_loop sz clock [] reroute_count i = None"
proof -
  have "solve 3 (create_empty_board 3) r c clock = None"
    if "0 \<le> r" "r < 3" "0 \<le> c" "c < 3" for r c
  proof -
    have r: "r = 0 \<or> r = 1 \<or> r = 2" using that by arith
    have c: "c = 0 \<or> c = 1 \<or> c = 2" using that by arith
    from r c show ?thesis
      by (elim disjE)
        (simp_all add: solve3_00 solve3_01 solve3_02 solve3_10 solve3_11 solve3_12
          solve3_20 solve3_21 solve3_22)
  qed
  then show ?thesis using solve_loop_empty by blast
qed

theorem solve_3x3_never_returns_witness:
  "(0::int) \<le> 1 \<and> (1::int) < 3 \<and>
   solve 3 (create_empty_board 3) 1 1 (\<lambda>n. 0) = None \<and>
   solve_loop 3 (\<lambda>n. 0) [] 0 0 = None"
  using solve_3x3_never_returns[of "\<lambda>n. 0" 3 0 0] by simp

section \<open>The result of the search\<close>

lemma scan_reroutes_Return:
  "scan_reroutes sz g rc rs = Return b n \<Longrightarrow> \<exists>p. cell b (fst p) (snd p) = Inr (sz * sz)"
proof (induction g arbitrary: rc rs)
  case Stop
  then show ?case by simp
next
  case (Yield rerouted g)
  let ?brd = "fst rerouted" and ?p = "fst (snd rerouted)"
  show ?case
  proof (cases "snd (snd rerouted) = 1")
    case False
    then have "scan_reroutes sz g (rc + 1) (rs @ [(?brd, ?p)]) = Return b n"
      using Yield.prems by (simp add: Let_def)
    then show ?thesis by (rule Yield.IH)
  next
    case True
    show ?thesis
    proof (cases "cell ?brd (fst ?p) (snd ?p)")
      case (Inl e)
      then show ?thesis using Yield.prems True by (simp add: Let_def)
    next
      case (Inr num)
      obtain brd' out where w: "wandorf_fill sz ?brd (fst ?p) (snd ?p) num = (brd', out)"
        by (cases "wandorf_fill sz ?brd (fst ?p) (snd ?p) num")
      show ?thesis
      proof (cases out)
        case (Inl e)
        then show ?thesis using Yield.prems True Inr w by (simp add: Let_def)
      next
        case las: (Inr deg1_last)
        show ?thesis
        proof (cases "cell brd' (fst deg1_last) (snd deg1_last)")
          case (Inl e)
          then show ?thesis using Yield.prems True Inr w las by (simp add: Let_def)
        next
          case v: (Inr v)
          have "v = sz * sz \<and> b = brd'"
            using Yield.prems True Inr w las v by (simp add: Let_def split: if_splits)
          then have "cell b (fst deg1_last) (snd deg1_last) = Inr (sz * sz)"
            using v by simp
          then show ?thesis by (rule exI)
        qed
      qed
    qed
  qed
next
  case (Raised e)
  then show ?case by simp
next
  case Hang
  then show ?case by simp
qed

lemma scan_boards_Return:
  "scan_boards sz boards rc rs = Return b n \<Longrightarrow> \<exists>p. cell b (fst p) (snd p) = Inr (sz * sz)"
proof (induction boards arbitrary: rc rs)
  case Nil
  then show ?case by simp
next
  case (Cons trial boards)
  show ?case
  proof (cases "scan_reroutes sz (reroute sz (fst trial) (snd trial)) rc rs")
    case (Continue rc' rs')
    then have "scan_boards sz boards rc' rs' = Return b n" using Cons.prems by simp
    then show ?thesis by (rule Cons.IH)
  next
    case (Break rc' rs')
    then show ?thesis using Cons.prems by simp
  next
    case (Return b' n')
    then have "scan_reroutes sz (reroute sz (fst trial) (snd trial)) rc rs = Return b n"
      using Cons.prems by simp
    then show ?thesis by (rule scan_reroutes_Return)
  next
    case (Err e)
    then show ?thesis using Cons.prems by simp
  next
    case Diverges
    then show ?thesis using Cons.prems by simp
  qed
qed

lemma solve_loop_result_shape:
  assumes "solve_loop sz clock boards rc i = Some y"
  shows "\<forall>res. y = Inr res \<longrightarrow>
           (\<exists>b n m t p. res = [(''board'', PBoard b), (''reroutes'', PInt n),
                               (''iterations'', PInt m), (''time'', PFloat t)] \<and>
                        cell b (fst p) (snd p) = Inr (sz * sz))"
proof (rule solve_loop.raw_induct[where P = "\<lambda>sz clock boards rc i y. \<forall>res. y = Inr res \<longrightarrow>
           (\<exists>b n m t p. res = [(''board'', PBoard b), (''reroutes'', PInt n),
                               (''iterations'', PInt m), (''time'', PFloat t)] \<and>
                        cell b (fst p) (snd p) = Inr (sz * sz))", OF _ assms],
    goal_cases)
  case (1 f sz clock boards rc i y)
  show ?case
  proof (cases "scan_boards sz boards rc []")
    case (Continue rc' rs)
    then have "f sz clock rs rc' (i + 1) = Some y" using 1(2) by simp
    from 1(1)[OF this] show ?thesis .
  next
    case (Break rc' rs)
    then have "f sz clock rs rc' (i + 1) = Some y" using 1(2) by simp
    from 1(1)[OF this] show ?thesis .
  next
    case (Return b rc')
    from scan_boards_Return[OF this] obtain p where
      p: "cell b (fst p) (snd p) = Inr (sz * sz)" by blast
    have y: "y = Inr [(''board'', PBoard b), (''reroutes'', PInt rc'),
        (''iterations'', PInt (i + 1)),
        (''time'', PFloat (clock (nat (i + 1) + 1) - clock 0))]"
      using Return 1(2) by simp
    show ?thesis
    proof (intro allI impI)
      fix res assume "y = Inr res"
      then have "res = [(''board'', PBoard b), (''reroutes'', PInt rc'),
        (''iterations'', PInt (i + 1)),
        (''time'', PFloat (clock (nat (i + 1) + 1) - clock 0))]" using y by simp
      with p show "\<exists>b n m t p. res = [(''board'', PBoard b), (''reroutes'', PInt n),
                               (''iterations'', PInt m), (''time'', PFloat t)] \<and>
                        cell b (fst p) (snd p) = Inr (sz * sz)" by blast
    qed
  next
    case (Err e)
    then show ?thesis using 1(2) by auto
  next
    case Diverges
    then show ?thesis using 1(2) by simp
  qed
qed

text \<open>
  Claim C8, amended. Whenever \<open>solve\<close> returns, it returns a dict with exactly the keys
  \<open>board\<close>, \<open>iterations\<close>, \<open>reroutes\<close> and \<open>time\<close>: a board, two integers and the
  elapsed time. There is no key \<open>success\<close>. The board returned has a square that holds
  \<open>sz * sz\<close>: \<open>solve\<close> returns only when the square where the last fill stopped holds
  that number.
\<close>

theorem solve_result_keys:
  assumes "solve sz brd r c clock = Some (brd', Inr res)"
  shows "set (map fst res) = {''board'', ''iterations'', ''reroutes'', ''time''} \<and>
         distinct (map fst res) \<and>
         (\<exists>b p. map_of res ''board'' = Some (PBoard b) \<and>
                 cell b (fst p) (snd p) = Inr (sz * sz)) \<and>
         (\<exists>n. map_of res ''iterations'' = Some (PInt n)) \<and>
         (\<exists>n. map_of res ''reroutes'' = Some (PInt n)) \<and>
         (\<exists>t. map_of res ''time'' = Some (PFloat t))"
proof -
  obtain board1 out where wf: "wandorf_fill sz brd r c 1 = (board1, out)"
    by (cases "wandorf_fill sz brd r c 1")
  have "(\<exists>b n m t p. res = [(''board'', PBoard b), (''reroutes'', PInt n),
                            (''iterations'', PInt m), (''time'', PFloat t)] \<and>
                     cell b (fst p) (snd p) = Inr (sz * sz)) \<or>
        (\<exists>b n m t p. res = [(''board'', PBoard b), (''iterations'', PInt m),
                            (''reroutes'', PInt n), (''time'', PFloat t)] \<and>
                     cell b (fst p) (snd p) = Inr (sz * sz))"
  proof (cases out)
    case (Inl e)
    then show ?thesis using assms wf by (simp add: solve_def)
  next
    case (Inr las)
    show ?thesis
    proof (cases "cell board1 (fst las) (snd las)")
      case (Inl e)
      then show ?thesis using assms wf Inr by (simp add: solve_def)
    next
      case v: (Inr v)
      show ?thesis
      proof (cases "if v = sz * sz then verify sz board1 else Inr False")
        case (Inl e)
        then show ?thesis using assms wf Inr v by (simp add: solve_def)
      next
        case ok: (Inr ok)
        show ?thesis
        proof (cases ok)
          case True
          then have full: "v = sz * sz" using ok by (auto split: if_splits)
          have "res = [(''board'', PBoard board1), (''iterations'', PInt 0),
              (''reroutes'', PInt 0), (''time'', PFloat (clock 1 - clock 0))]"
            using assms wf Inr v ok True by (auto simp: solve_def)
          moreover have "cell board1 (fst las) (snd las) = Inr (sz * sz)"
            using v full by simp
          ultimately show ?thesis by blast
        next
          case False
          then have "solve_loop sz clock [(board1, las)] 0 0 = Some (Inr res)"
            using assms wf Inr v ok by (auto simp: solve_def)
          from solve_loop_result_shape[OF this] show ?thesis by blast
        qed
      qed
    qed
  qed
  then show ?thesis
    by (elim disjE exE conjE) (simp_all add: insert_commute, blast+)
qed

lemma solve_1x1:
  "solve 1 (create_empty_board 1) 0 0 (\<lambda>n. 0) =
     Some ([[1]], Inr [(''board'', PBoard [[1]]), (''iterations'', PInt 0),
                       (''reroutes'', PInt 0), (''time'', PFloat 0)])"
  by code_simp

theorem solve_result_keys_witness:
  "solve 1 (create_empty_board 1) 0 0 (\<lambda>n. 0) =
     Some ([[1]], Inr [(''board'', PBoard [[1]]), (''iterations'', PInt 0),
                       (''reroutes'', PInt 0), (''time'', PFloat 0)]) \<and>
   set (map fst [(''board'', PBoard [[1]]), (''iterations'', PInt 0),
                 (''reroutes'', PInt 0), (''time'', PFloat 0)]) =
     {''board'', ''iterations'', ''reroutes'', ''time''}"
proof (rule conjI)
  show "solve 1 (create_empty_board 1) 0 0 (\<lambda>n. 0) =
     Some ([[1]], Inr [(''board'', PBoard [[1]]), (''iterations'', PInt 0),
                       (''reroutes'', PInt 0), (''time'', PFloat 0)])"
    by (rule solve_1x1)
  show "set (map fst [(''board'', PBoard [[1]]), (''iterations'', PInt 0),
                 (''reroutes'', PInt 0), (''time'', PFloat 0)]) =
     {''board'', ''iterations'', ''reroutes'', ''time''}"
    by (rule solve_result_keys[OF solve_1x1, THEN conjunct1])
qed

text \<open>
  The dict returned for the 1x1 board has no key \<open>success\<close>, \<open>reroute_count\<close> or
  \<open>generation_count\<close>, and it has the key \<open>time\<close>.
\<close>

theorem solve_result_keys_counterexample:
  "solve 1 (create_empty_board 1) 0 0 (\<lambda>n. 0) =
     Some ([[1]], Inr [(''board'', PBoard [[1]]), (''iterations'', PInt 0),
                       (''reroutes'', PInt 0), (''time'', PFloat 0)]) \<and>
   map_of [(''board'', PBoard [[1]]), (''iterations'', PInt 0),
           (''reroutes'', PInt 0), (''time'', PFloat 0)] ''success'' = None \<and>
   map_of [(''board'', PBoard [[1]]), (''iterations'', PInt 0),
           (''reroutes'', PInt 0), (''time'', PFloat 0)] ''time'' = Some (PFloat 0)"
  by (intro conjI, rule solve_1x1) simp_all

text \<open>
  On a board the caller has filled in part, the board returned need not be full: below,
  the first reroute has rank 1, the resumed fill stops at once on the square holding 9,
  and \<open>solve\<close> returns a board with three empty squares.
\<close>

lemma solve_prefilled_board:
  "solve 3 [[0, 0, 9], [3, 5, 4], [0, 8, 20]] 0 0 (\<lambda>n. 0) =
     Some ([[1, 0, 9], [3, 5, 4], [0, 8, 20]],
           Inr [(''board'', PBoard [[1, 0, 9], [3, 5, 4], [0, 8, 20]]),
                (''reroutes'', PInt 1), (''iterations'', PInt 1), (''time'', PFloat 0)])"
  by code_simp

section \<open>Determinism\<close>

definition untimed :: "result \<Rightarrow> result" where
  "untimed res = filter (\<lambda>kv. fst kv \<noteq> ''time'') res"

definition without_time ::
  "(board \<times> (error + result)) option \<Rightarrow> (board \<times> (error + result)) option" where
  "without_time = map_option (map_prod id (map_sum id untimed))"

lemma solve_loop_clock_step:
  assumes "solve_loop sz clock boards rc i = Some y"
  shows "\<forall>clock'. \<exists>y'. solve_loop sz clock' boards rc i = Some y' \<and>
           map_sum id untimed y' = map_sum id untimed y"
proof (rule solve_loop.raw_induct[where P = "\<lambda>sz clock boards rc i y.
    \<forall>clock'. \<exists>y'. solve_loop sz clock' boards rc i = Some y' \<and>
           map_sum id untimed y' = map_sum id untimed y", OF _ assms], goal_cases)
  case (1 f sz clock boards rc i y)
  show ?case
  proof (cases "scan_boards sz boards rc []")
    case (Continue rc' rs)
    then have "f sz clock rs rc' (i + 1) = Some y" using 1(2) by simp
    from 1(1)[OF this] show ?thesis
      using Continue by (subst solve_loop.simps) simp
  next
    case (Break rc' rs)
    then have "f sz clock rs rc' (i + 1) = Some y" using 1(2) by simp
    from 1(1)[OF this] show ?thesis
      using Break by (subst solve_loop.simps) simp
  next
    case (Return b rc')
    then show ?thesis
      using 1(2) by (subst solve_loop.simps) (auto simp: untimed_def)
  next
    case (Err e)
    then show ?thesis
      using 1(2) by (subst solve_loop.simps) auto
  next
    case Diverges
    then show ?thesis using 1(2) by simp
  qed
qed

lemma solve_loop_clock:
  "map_option (map_sum id untimed) (solve_loop sz clock boards rc i) =
   map_option (map_sum id untimed) (solve_loop sz clock' boards rc i)"
proof (cases "solve_loop sz clock boards rc i")
  case None
  show ?thesis
  proof (cases "solve_loop sz clock' boards rc i")
    case None': None
    then show ?thesis using None by simp
  next
    case (Some y')
    from solve_loop_clock_step[OF this] have "\<exists>y. solve_loop sz clock boards rc i = Some y"
      by blast
    then show ?thesis using None by simp
  qed
next
  case (Some y)
  from solve_loop_clock_step[OF this] obtain y'
    where "solve_loop sz clock' boards rc i = Some y'"
      "map_sum id untimed y' = map_sum id untimed y" by blast
  then show ?thesis using Some by simp
qed

lemma solve_clock: "without_time (solve sz brd r c clock) = without_time (solve sz brd r c clock')"
proof -
  obtain board1 out where wf: "wandorf_fill sz brd r c 1 = (board1, out)"
    by (cases "wandorf_fill sz brd r c 1")
  show ?thesis
  proof (cases out)
    case (Inl e)
    then show ?thesis using wf by (simp add: solve_def)
  next
    case (Inr las)
    show ?thesis
    proof (cases "cell board1 (fst las) (snd las)")
      case (Inl e)
      then show ?thesis using wf Inr by (simp add: solve_def)
    next
      case v: (Inr v)
      show ?thesis
      proof (cases "if v = sz * sz then verify sz board1 else Inr False")
        case (Inl e)
        then show ?thesis using wf Inr v by (simp add: solve_def)
      next
        case ok: (Inr ok)
        show ?thesis
        proof (cases ok)
          case True
          then have "solve sz brd r c ck = Some (board1,
              Inr [(''board'', PBoard board1), (''iterations'', PInt 0),
                   (''reroutes'', PInt 0), (''time'', PFloat (ck 1 - ck 0))])" for ck
            using wf Inr v ok by (simp add: solve_def)
          then show ?thesis by (simp add: without_time_def untimed_def)
        next
          case False
          then have eq: "solve sz brd r c ck =
              map_option (Pair board1) (solve_loop sz ck [(board1, las)] 0 0)" for ck
            using wf Inr v ok by (simp add: solve_def)
          have "without_time (map_option (Pair b) x) =
                map_option (Pair b) (map_option (map_sum id untimed) x)" for b x
            by (cases x) (simp_all add: without_time_def)
          then show ?thesis
            unfolding eq using solve_loop_clock[of sz clock "[(board1, las)]" 0 0 clock']
            by simp
        qed
      qed
    qed
  qed
qed

text \<open>
  Claim C9. \<open>solve\<close> is a function of the size, the board and the start square. The
  only other input is the clock, which reaches nothing but the entry \<open>time\<close>: two runs
  on fresh empty boards of the same size from the same start, under any two clocks, both
  return, both raise or both never return, with the same caller's board, the same
  result board and the same counts.
\<close>

theorem solve_deterministic:
  "without_time (solve sz (create_empty_board sz) r c clock) =
   without_time (solve sz (create_empty_board sz) r c clock')"
  by (rule solve_clock)

section \<open>One round of the heuristic filler\<close>

lemma norm_index_in_range: "0 \<le> i \<Longrightarrow> i < int n \<Longrightarrow> norm_index n i = Some (nat i)"
  by (simp add: norm_index_def)

lemma wf_board_row:
  "wf_board sz brd \<Longrightarrow> 0 \<le> r \<Longrightarrow> r < sz \<Longrightarrow> length (brd ! nat r) = nat sz"
  by (simp add: wf_board_def list_all_length)

lemma cell_wf:
  assumes "wf_board sz brd" and "in_grid sz (r, c)"
  shows "cell brd r c = Inr (brd ! nat r ! nat c)"
proof -
  have r: "0 \<le> r" "r < sz" and c: "0 \<le> c" "c < sz"
    using assms(2) by (simp_all add: in_grid_def)
  have "norm_index (length brd) r = Some (nat r)"
    using assms(1) r by (intro norm_index_in_range) (simp_all add: wf_board_def)
  moreover have "norm_index (length (brd ! nat r)) c = Some (nat c)"
    using wf_board_row[OF assms(1) r] c by (intro norm_index_in_range) simp_all
  ultimately show ?thesis by (simp add: cell_def)
qed

lemma set_cell_wf:
  assumes "wf_board sz brd" and "in_grid sz (r, c)"
  shows "set_cell brd r c v = Inr (brd[nat r := (brd ! nat r)[nat c := v]])"
proof -
  have r: "0 \<le> r" "r < sz" and c: "0 \<le> c" "c < sz"
    using assms(2) by (simp_all add: in_grid_def)
  have "norm_index (length brd) r = Some (nat r)"
    using assms(1) r by (intro norm_index_in_range) (simp_all add: wf_board_def)
  moreover have "norm_index (length (brd ! nat r)) c = Some (nat c)"
    using wf_board_row[OF assms(1) r] c by (intro norm_index_in_range) simp_all
  ultimately show ?thesis by (simp add: set_cell_def)
qed

lemma wf_board_update:
  assumes "wf_board sz brd" and "in_grid sz (r, c)"
  shows "wf_board sz (brd[nat r := (brd ! nat r)[nat c := v]])"
proof -
  have r: "0 \<le> r" "r < sz" using assms(2) by (simp_all add: in_grid_def)
  have len: "length ((brd ! nat r)[nat c := v]) = nat sz"
    using wf_board_row[OF assms(1) r] by simp
  have "length (brd[nat r := (brd ! nat r)[nat c := v]] ! n) = nat sz" if "n < nat sz" for n
  proof (cases "n = nat r")
    case True
    then show ?thesis using len assms(1) that by (simp add: wf_board_def)
  next
    case False
    then show ?thesis using assms(1) that by (simp add: wf_board_def list_all_length)
  qed
  then show ?thesis
    using assms(1) by (simp add: wf_board_def list_all_length)
qed

text \<open>
  The words of the specification: the empty neighbours of a square, its degree, and the
  first candidate of minimum degree.
\<close>

definition empty_neighbors :: "int \<Rightarrow> board \<Rightarrow> pos \<Rightarrow> pos list" where
  "empty_neighbors sz brd p =
     filter (\<lambda>f. cell brd (fst f) (snd f) = Inr 0) (get_accessible_fields sz (fst p) (snd p))"

definition degree :: "int \<Rightarrow> board \<Rightarrow> pos \<Rightarrow> nat" where
  "degree sz brd p = length (empty_neighbors sz brd p)"

definition first_min :: "('a \<Rightarrow> nat) \<Rightarrow> 'a list \<Rightarrow> 'a" where
  "first_min deg js = hd (filter (\<lambda>j. \<forall>k\<in>set js. deg j \<le> deg k) js)"

lemma keep_empty_wf:
  assumes "wf_board sz brd"
  shows "(\<forall>f\<in>set fields. in_grid sz f) \<Longrightarrow>
         keep_empty brd fields = Inr (filter (\<lambda>f. cell brd (fst f) (snd f) = Inr 0) fields)"
proof (induction fields)
  case Nil
  then show ?case by simp
next
  case (Cons f fields)
  have "in_grid sz (fst f, snd f)" using Cons.prems by simp
  from cell_wf[OF assms this] Cons show ?case by simp
qed

lemma get_possible_jumps_wf:
  assumes "wf_board sz brd"
  shows "get_possible_jumps sz brd r c = Inr (empty_neighbors sz brd (r, c))"
  unfolding get_possible_jumps_def empty_neighbors_def
  using keep_empty_wf[OF assms] by (simp add: accessible_iff)

fun best_pure :: "('a \<Rightarrow> nat) \<Rightarrow> int \<times> 'a \<Rightarrow> 'a list \<Rightarrow> int \<times> 'a" where
  "best_pure deg best [] = best"
| "best_pure deg best (j # js) =
     best_pure deg (if int (deg j) < fst best then (int (deg j), j) else best) js"

lemma best_jump_loop_wf:
  assumes "wf_board sz brd"
  shows "best_jump_loop sz brd best js = Inr (best_pure (degree sz brd) best js)"
proof (induction js arbitrary: best)
  case Nil
  then show ?case by simp
next
  case (Cons j js)
  show ?case
    using get_possible_jumps_wf[OF assms, of "fst j" "snd j"] Cons.IH
    by (simp add: Let_def degree_def)
qed

lemma first_min_Cons:
  "first_min deg (j # js) =
     (if \<forall>k\<in>set js. deg j \<le> deg k then j else first_min deg js)"
proof (cases "\<forall>k\<in>set js. deg j \<le> deg k")
  case True
  then show ?thesis by (simp add: first_min_def)
next
  case False
  then obtain k where k: "k \<in> set js" "deg k < deg j" by force
  have "filter (\<lambda>x. \<forall>k\<in>set (j # js). deg x \<le> deg k) js =
        filter (\<lambda>x. \<forall>k\<in>set js. deg x \<le> deg k) js"
  proof (rule filter_cong[OF refl])
    fix x assume "x \<in> set js"
    show "(\<forall>k\<in>set (j # js). deg x \<le> deg k) \<longleftrightarrow> (\<forall>k\<in>set js. deg x \<le> deg k)"
      using k by (auto intro: order_trans less_imp_le)
  qed
  then have "filter (\<lambda>x. \<forall>k\<in>set (j # js). deg x \<le> deg k) (j # js) =
        filter (\<lambda>x. \<forall>k\<in>set js. deg x \<le> deg k) js"
    using False by auto
  then have "first_min deg (j # js) = first_min deg js"
    unfolding first_min_def by (rule arg_cong)
  then show ?thesis using False by (simp only: if_False)
qed

lemma best_pure_char:
  "best_pure deg (d0, j0) js =
     (if \<exists>k\<in>set js. int (deg k) < d0
      then (int (deg (first_min deg js)), first_min deg js) else (d0, j0))"
proof (induction js arbitrary: d0 j0)
  case Nil
  then show ?case by simp
next
  case (Cons j js)
  show ?case
  proof (cases "int (deg j) < d0")
    case True
    then show ?thesis
      using Cons.IH[of "int (deg j)" j] by (auto simp: first_min_Cons not_less)
  next
    case False
    then show ?thesis
      using Cons.IH[of d0 j0] by (auto simp: first_min_Cons not_less)
  qed
qed

lemma first_min_mem: "js \<noteq> [] \<Longrightarrow> first_min deg js \<in> set js"
proof (induction js)
  case Nil
  then show ?case by simp
next
  case (Cons j js)
  show ?case
  proof (cases "\<forall>k\<in>set js. deg j \<le> deg k")
    case True
    then show ?thesis by (simp add: first_min_Cons)
  next
    case False
    then have "js \<noteq> []" by auto
    from Cons.IH[OF this] show ?thesis using False by (simp add: first_min_Cons)
  qed
qed

lemma degree_le_8: "degree sz brd p \<le> 8"
proof -
  have "degree sz brd p \<le> length (get_accessible_fields sz (fst p) (snd p))"
    by (simp add: degree_def empty_neighbors_def)
  also have "\<dots> \<le> 8" by (rule length_accessible)
  finally show ?thesis .
qed

text \<open>
  Claim C4. On a board of the solver's size and a start square on it, one round of
  \<open>wandorf_fill\<close> writes \<open>num\<close> into the current square of the board it was given.
  When that square has no empty neighbour the call returns the board so changed and the
  square as the blocked terminal. Otherwise the call goes on, with \<open>num + 1\<close>, from the
  first empty neighbour (in offset order) whose degree is the minimum; that square is on
  the board again, so the same holds for every later round.
\<close>

theorem wandorf_fill_step:
  assumes "wf_board sz brd" and "in_grid sz (r, c)"
  shows "let brd1 = brd[nat r := (brd ! nat r)[nat c := num]];
             jumps = empty_neighbors sz brd1 (r, c);
             nxt = first_min (degree sz brd1) jumps
         in wf_board sz brd1 \<and> cell brd1 r c = Inr num \<and>
            (jumps = [] \<longrightarrow> wandorf_fill sz brd r c num = (brd1, Inr (r, c))) \<and>
            (jumps \<noteq> [] \<longrightarrow> nxt \<in> set jumps \<and> in_grid sz nxt \<and>
               wandorf_fill sz brd r c num =
                 wandorf_fill sz brd1 (fst nxt) (snd nxt) (num + 1))"
proof -
  define brd1 where "brd1 = brd[nat r := (brd ! nat r)[nat c := num]]"
  define jumps where "jumps = empty_neighbors sz brd1 (r, c)"
  define nxt where "nxt = first_min (degree sz brd1) jumps"
  have wf1: "wf_board sz brd1"
    unfolding brd1_def using assms by (rule wf_board_update)
  have sc: "set_cell brd r c num = Inr brd1"
    unfolding brd1_def using assms by (rule set_cell_wf)
  have r: "nat r < length brd" and c: "nat c < length (brd ! nat r)"
    using assms wf_board_row[OF assms(1)] by (simp_all add: in_grid_def wf_board_def)
  have written: "cell brd1 r c = Inr num"
    using cell_wf[OF wf1 assms(2)] r c by (simp add: brd1_def)
  have gp: "get_possible_jumps sz brd1 r c = Inr jumps"
    unfolding jumps_def using wf1 by (rule get_possible_jumps_wf)
  have blocked: "wandorf_fill sz brd r c num = (brd1, Inr (r, c))" if "jumps = []"
    using sc gp that by (subst wandorf_fill.simps) simp
  have move: "nxt \<in> set jumps \<and> in_grid sz nxt \<and>
      wandorf_fill sz brd r c num = wandorf_fill sz brd1 (fst nxt) (snd nxt) (num + 1)"
    if ne: "jumps \<noteq> []"
  proof -
    have mem: "nxt \<in> set jumps"
      unfolding nxt_def using ne by (rule first_min_mem)
    then have grid: "in_grid sz nxt"
      by (simp add: jumps_def empty_neighbors_def accessible_iff)
    obtain j where j: "j \<in> set jumps" using ne by (cases jumps) auto
    have "int (degree sz brd1 j) < 9" using degree_le_8[of sz brd1 j] by simp
    then have "\<exists>k\<in>set jumps. int (degree sz brd1 k) < 9" using j by blast
    then have "best_pure (degree sz brd1) (9, (0, 0)) jumps = (int (degree sz brd1 nxt), nxt)"
      by (simp add: best_pure_char nxt_def)
    then have "best_jump_loop sz brd1 (9, (0, 0)) jumps = Inr (int (degree sz brd1 nxt), nxt)"
      using best_jump_loop_wf[OF wf1] by simp
    then have "wandorf_fill sz brd r c num = wandorf_fill sz brd1 (fst nxt) (snd nxt) (num + 1)"
      using sc gp ne by (subst wandorf_fill.simps) simp
    with mem grid show ?thesis by blast
  qed
  from wf1 written blocked move show ?thesis
    unfolding brd1_def[symmetric] jumps_def[symmetric] nxt_def[symmetric] Let_def
    by blast
qed

definition first_round_board :: board where
  "first_round_board =
     [[1, 0, 0, 0, 0], [0, 0, 0, 0, 0], [0, 0, 0, 0, 0], [0, 0, 0, 0, 0], [0, 0, 0, 0, 0]]"

theorem wandorf_fill_step_witness:
  "wf_board 5 (create_empty_board 5) \<and> in_grid 5 (0, 0) \<and>
   empty_neighbors 5 first_round_board (0, 0) = [(2, 1), (1, 2)] \<and>
   degree 5 first_round_board (2, 1) = 5 \<and> degree 5 first_round_board (1, 2) = 5 \<and>
   wandorf_fill 5 (create_empty_board 5) 0 0 1 = wandorf_fill 5 first_round_board 2 1 2"
proof -
  have wf: "wf_board 5 (create_empty_board 5)"
    by (simp add: wf_board_def create_empty_board_def list_all_iff)
  have g: "in_grid 5 (0, 0)" by (simp add: in_grid_def)
  have e1: "(create_empty_board 5)[nat 0 := (create_empty_board 5 ! nat 0)[nat 0 := 1]] =
      first_round_board"
    by code_simp
  have e2: "empty_neighbors 5 first_round_board (0, 0) = [(2, 1), (1, 2)]"
    by code_simp
  have e3: "first_min (degree 5 first_round_board) [(2, 1), (1, 2)] = (2, 1)"
    by code_simp
  have d: "degree 5 first_round_board (2, 1) = 5" "degree 5 first_round_board (1, 2) = 5"
    by code_simp+
  note t = wandorf_fill_step[OF wf g, of 1, unfolded Let_def e1 e2 e3]
  then have "wandorf_fill 5 (create_empty_board 5) 0 0 1 =
      wandorf_fill 5 first_round_board 2 1 (1 + 1)"
    by simp
  with wf g e2 d show ?thesis by simp
qed

section \<open>Boards as functions on the squares\<close>

definition val :: "board \<Rightarrow> pos \<Rightarrow> int" where
  "val brd p = brd ! nat (fst p) ! nat (snd p)"

lemma cell_val:
  "wf_board sz brd \<Longrightarrow> in_grid sz p \<Longrightarrow> cell brd (fst p) (snd p) = Inr (val brd p)"
  using cell_wf[of sz brd "fst p" "snd p"] by (simp add: val_def)

lemma wf_board_map: "wf_board sz brd \<Longrightarrow> wf_board sz (map (map h) brd)"
  by (simp add: wf_board_def list_all_length)

lemma val_map:
  assumes "wf_board sz brd" and "in_grid sz p"
  shows "val (map (map h) brd) p = h (val brd p)"
proof -
  have r: "0 \<le> fst p" "fst p < sz" and c: "0 \<le> snd p" "snd p < sz"
    using assms(2) by (simp_all add: in_grid_def)
  have "nat (fst p) < length brd" using assms(1) r by (simp add: wf_board_def)
  moreover have "nat (snd p) < length (brd ! nat (fst p))"
    using wf_board_row[OF assms(1) r] c by simp
  ultimately show ?thesis by (simp add: val_def)
qed

lemma board_ext:
  assumes "wf_board sz b1" and "wf_board sz b2"
    and eq: "\<And>p. in_grid sz p \<Longrightarrow> val b1 p = val b2 p"
  shows "b1 = b2"
proof (rule nth_equalityI)
  show "length b1 = length b2" using assms(1,2) by (simp add: wf_board_def)
next
  fix i assume i: "i < length b1"
  then have isz: "int i < sz" using assms(1) by (simp add: wf_board_def)
  have l1: "length (b1 ! i) = nat sz"
    using wf_board_row[OF assms(1), of "int i"] isz by simp
  have l2: "length (b2 ! i) = nat sz"
    using wf_board_row[OF assms(2), of "int i"] isz by simp
  show "b1 ! i = b2 ! i"
  proof (rule nth_equalityI)
    show "length (b1 ! i) = length (b2 ! i)" using l1 l2 by simp
  next
    fix j assume "j < length (b1 ! i)"
    then have "in_grid sz (int i, int j)" using isz l1 by (simp add: in_grid_def)
    from eq[OF this] show "b1 ! i ! j = b2 ! i ! j" by (simp add: val_def)
  qed
qed

lemma val_update:
  assumes "wf_board sz brd" and "in_grid sz p" and "in_grid sz q"
  shows "val (brd[nat (fst p) := (brd ! nat (fst p))[nat (snd p) := v]]) q =
         (if q = p then v else val brd q)"
proof -
  have p: "0 \<le> fst p" "fst p < sz" "0 \<le> snd p" "snd p < sz"
    using assms(2) by (simp_all add: in_grid_def)
  have q: "0 \<le> fst q" "fst q < sz" "0 \<le> snd q" "snd q < sz"
    using assms(3) by (simp_all add: in_grid_def)
  have lp: "nat (fst p) < length brd" using assms(1) p by (simp add: wf_board_def)
  have lc: "nat (snd p) < length (brd ! nat (fst p))"
    using wf_board_row[OF assms(1) p(1,2)] p by simp
  show ?thesis
  proof (cases "fst q = fst p")
    case True
    show ?thesis
    proof (cases "snd q = snd p")
      case True
      with \<open>fst q = fst p\<close> have "q = p" by (simp add: prod_eq_iff)
      then show ?thesis using lp lc by (simp add: val_def)
    next
      case False
      then have "nat (snd q) \<noteq> nat (snd p)" using p q by simp
      moreover have "q \<noteq> p" using False by auto
      ultimately show ?thesis using True lp by (simp add: val_def)
    qed
  next
    case False
    then have "nat (fst q) \<noteq> nat (fst p)" using p q by simp
    moreover have "q \<noteq> p" using False by auto
    ultimately show ?thesis by (simp add: val_def)
  qed
qed

lemma swap_cells_wf:
  assumes "wf_board sz b" and "in_grid sz f1" and "in_grid sz f2"
  shows "\<exists>b'. swap_cells b f1 f2 = Inr b' \<and> wf_board sz b' \<and>
           (\<forall>q. in_grid sz q \<longrightarrow>
              val b' q = (if q = f2 then val b f1 else if q = f1 then val b f2 else val b q))"
proof -
  let ?b1 = "b[nat (fst f1) := (b ! nat (fst f1))[nat (snd f1) := val b f2]]"
  let ?b2 = "?b1[nat (fst f2) := (?b1 ! nat (fst f2))[nat (snd f2) := val b f1]]"
  have g1: "in_grid sz (fst f1, snd f1)" and g2: "in_grid sz (fst f2, snd f2)"
    using assms(2,3) by simp_all
  have wf1: "wf_board sz ?b1" using wf_board_update[OF assms(1) g1] .
  have wf2: "wf_board sz ?b2" using wf_board_update[OF wf1 g2] .
  have s1: "set_cell b (fst f1) (snd f1) (val b f2) = Inr ?b1"
    using set_cell_wf[OF assms(1) g1] .
  have s2: "set_cell ?b1 (fst f2) (snd f2) (val b f1) = Inr ?b2"
    using set_cell_wf[OF wf1 g2] .
  have "swap_cells b f1 f2 = Inr ?b2"
    using cell_val[OF assms(1,2)] cell_val[OF assms(1,3)] s1 s2
    by (simp add: swap_cells_def)
  moreover have "val ?b2 q = (if q = f2 then val b f1 else if q = f1 then val b f2 else val b q)"
    if "in_grid sz q" for q
    using val_update[OF wf1 assms(3) that] val_update[OF assms(1,2) that] by simp
  ultimately show ?thesis using wf2 by blast
qed

lemma scan_value_total:
  assumes "wf_board sz b" and "in_grid sz (r, c)"
  shows "(\<forall>f\<in>set fields. in_grid sz f) \<Longrightarrow> \<exists>res. scan_value b r c d fields = Inr res"
proof (induction fields)
  case Nil
  then show ?case by simp
next
  case (Cons f fields)
  have "in_grid sz f" using Cons.prems by simp
  from cell_val[OF assms(1) this] cell_wf[OF assms] Cons show ?case by simp
qed

lemma scan_value_unique:
  assumes "wf_board sz b" and "in_grid sz (r, c)"
    and "q \<in> set fields" and "val b q = val b (r, c) + d"
  shows "(\<forall>f\<in>set fields. in_grid sz f \<and> (val b f = val b (r, c) + d \<longrightarrow> f = q)) \<Longrightarrow>
         scan_value b r c d fields = Inr (Some q)"
  using assms(3)
proof (induction fields)
  case Nil
  then show ?case by simp
next
  case (Cons f fields)
  have g: "in_grid sz f" using Cons.prems(1) by simp
  have cf: "cell b (fst f) (snd f) = Inr (val b f)" using cell_val[OF assms(1) g] .
  have cr: "cell b r c = Inr (val b (r, c))" using cell_val[OF assms(1,2)] by simp
  show ?case
  proof (cases "val b f = val b (r, c) + d")
    case True
    then have "f = q" using Cons.prems(1) by simp
    then show ?thesis using cf cr True by simp
  next
    case False
    then have "f \<noteq> q" using assms(4) by auto
    then have "q \<in> set fields" using Cons.prems(2) by simp
    moreover have "\<forall>f\<in>set fields. in_grid sz f \<and> (val b f = val b (r, c) + d \<longrightarrow> f = q)"
      using Cons.prems(1) by simp
    ultimately have "scan_value b r c d fields = Inr (Some q)" using Cons.IH by blast
    then show ?thesis using cf cr False by simp
  qed
qed

section \<open>The path reversal\<close>

text \<open>
  A board carries a path of length \<open>k\<close>: every square holds 0 or a value in \<open>1..k\<close>, every
  value in \<open>1..k\<close> stands on exactly one square, and the square holding \<open>v + 1\<close> is a
  knight move away from the square holding \<open>v\<close>. (Used in the proofs only; the claims
  are stated with \<open>path_ok\<close> below.)
\<close>

definition chain :: "int \<Rightarrow> board \<Rightarrow> int \<Rightarrow> bool" where
  "chain sz brd k \<longleftrightarrow>
     wf_board sz brd \<and>
     (\<forall>p. in_grid sz p \<longrightarrow> val brd p = 0 \<or> (1 \<le> val brd p \<and> val brd p \<le> k)) \<and>
     (\<forall>v. 1 \<le> v \<and> v \<le> k \<longrightarrow> (\<exists>p. in_grid sz p \<and> val brd p = v)) \<and>
     (\<forall>p q. in_grid sz p \<and> in_grid sz q \<and> val brd p = val brd q \<and> val brd p \<noteq> 0 \<longrightarrow> p = q) \<and>
     (\<forall>p q. in_grid sz p \<and> in_grid sz q \<and> val brd p \<noteq> 0 \<and> val brd q = val brd p + 1 \<longrightarrow>
        q \<in> set (get_accessible_fields sz (fst p) (snd p)))"

lemma chain_wf: "chain sz brd k \<Longrightarrow> wf_board sz brd"
  by (simp add: chain_def)

lemma chain_range:
  "chain sz brd k \<Longrightarrow> in_grid sz p \<Longrightarrow> val brd p = 0 \<or> (1 \<le> val brd p \<and> val brd p \<le> k)"
  unfolding chain_def by blast

lemma chain_ex: "chain sz brd k \<Longrightarrow> 1 \<le> v \<Longrightarrow> v \<le> k \<Longrightarrow> \<exists>p. in_grid sz p \<and> val brd p = v"
  unfolding chain_def by blast

lemma chain_uniq:
  "chain sz brd k \<Longrightarrow> in_grid sz p \<Longrightarrow> in_grid sz q \<Longrightarrow> val brd p = val brd q \<Longrightarrow>
   val brd p \<noteq> 0 \<Longrightarrow> p = q"
  unfolding chain_def by blast

lemma chain_adj:
  "chain sz brd k \<Longrightarrow> in_grid sz p \<Longrightarrow> in_grid sz q \<Longrightarrow> val brd p \<noteq> 0 \<Longrightarrow>
   val brd q = val brd p + 1 \<Longrightarrow> q \<in> set (get_accessible_fields sz (fst p) (snd p))"
  unfolding chain_def by blast

text \<open>
  After \<open>j\<close> rounds of the reversal between the values \<open>a\<close> and \<open>k\<close>, the \<open>j\<close> lowest
  and the \<open>j\<close> highest values of \<open>a..k\<close> are mirrored, the others are as they were.
\<close>

definition sigma :: "int \<Rightarrow> int \<Rightarrow> int \<Rightarrow> int \<Rightarrow> int" where
  "sigma a k j v = (if (a \<le> v \<and> v < a + j) \<or> (k - j < v \<and> v \<le> k) then a + k - v else v)"

lemma reverse_step:
  assumes ch: "chain sz brd k" and a: "1 \<le> a" and j: "0 \<le> j"
    and g1: "in_grid sz f1" and g2: "in_grid sz f2"
    and v1: "val brd f1 = a + j" and v2: "val brd f2 = k - j" and le: "a + j \<le> k - j"
  shows "swap_cells (map (map (sigma a k j)) brd) f1 f2 =
         Inr (map (map (sigma a k (j + 1))) brd)"
proof -
  let ?b = "map (map (sigma a k j)) brd"
  have wf: "wf_board sz brd" using ch by (rule chain_wf)
  have wfb: "wf_board sz ?b" using wf by (rule wf_board_map)
  from swap_cells_wf[OF wfb g1 g2] obtain b' where
    sw: "swap_cells ?b f1 f2 = Inr b'" and wf': "wf_board sz b'"
    and vb': "\<And>q. in_grid sz q \<Longrightarrow>
       val b' q = (if q = f2 then val ?b f1 else if q = f1 then val ?b f2 else val ?b q)"
    by blast
  have b1: "val ?b f1 = a + j" using val_map[OF wf g1] v1 j le by (simp add: sigma_def)
  have b2: "val ?b f2 = k - j" using val_map[OF wf g2] v2 j le by (simp add: sigma_def)
  have eq: "val b' q = val (map (map (sigma a k (j + 1))) brd) q" if q: "in_grid sz q" for q
  proof -
    have rhs: "val (map (map (sigma a k (j + 1))) brd) q = sigma a k (j + 1) (val brd q)"
      using val_map[OF wf q] .
    show ?thesis
    proof (cases "q = f2")
      case True
      then show ?thesis using vb'[OF q] b1 rhs v2 j le by (simp add: sigma_def)
    next
      case nf2: False
      show ?thesis
      proof (cases "q = f1")
        case True
        then show ?thesis using vb'[OF q] nf2 b2 rhs v1 j le by (simp add: sigma_def)
      next
        case nf1: False
        have "val brd q \<noteq> a + j"
          using chain_uniq[OF ch q g1] nf1 v1 a j by auto
        moreover have "val brd q \<noteq> k - j"
          using chain_uniq[OF ch q g2] nf2 v2 a j le by auto
        ultimately have "sigma a k (j + 1) (val brd q) = sigma a k j (val brd q)"
          by (auto simp: sigma_def)
        then show ?thesis using vb'[OF q] nf1 nf2 rhs val_map[OF wf q] by simp
      qed
    qed
  qed
  have "b' = map (map (sigma a k (j + 1))) brd"
    using wf' wf_board_map[OF wf] eq by (rule board_ext)
  then show ?thesis using sw by simp
qed

lemma sigma_inj_at:
  "sigma a k j x = v \<Longrightarrow> sigma a k j v = v \<Longrightarrow> x = v"
  by (auto simp: sigma_def split: if_splits)

lemma next_exact:
  assumes ch: "chain sz brd k" and a: "1 \<le> a" and j: "0 \<le> j"
    and g1: "in_grid sz f1" and v1: "val brd f1 = a + j" and le: "a + j + 1 \<le> k - j"
  shows "\<exists>q. in_grid sz q \<and> val brd q = a + j + 1 \<and>
           get_next sz (map (map (sigma a k j)) brd) (fst f1) (snd f1) = Inr (Some q)"
proof -
  let ?s = "sigma a k j"
  let ?b = "map (map ?s) brd"
  have wf: "wf_board sz brd" using ch by (rule chain_wf)
  have wfb: "wf_board sz ?b" using wf by (rule wf_board_map)
  obtain q where q: "in_grid sz q" "val brd q = a + j + 1"
    using chain_ex[OF ch, of "a + j + 1"] a j le by auto
  have adj: "q \<in> set (get_accessible_fields sz (fst f1) (snd f1))"
    using chain_adj[OF ch g1 q(1)] v1 q(2) a j by simp
  have bf1: "val ?b (fst f1, snd f1) = a + j"
    using val_map[OF wf g1] v1 j le by (simp add: sigma_def)
  have fixq: "?s (a + j + 1) = a + j + 1" using j le by (simp add: sigma_def)
  have bq: "val ?b q = val ?b (fst f1, snd f1) + 1"
    using val_map[OF wf q(1)] q(2) bf1 fixq by simp
  have "in_grid sz f \<and> (val ?b f = val ?b (fst f1, snd f1) + 1 \<longrightarrow> f = q)"
    if f: "f \<in> set (get_accessible_fields sz (fst f1) (snd f1))" for f
  proof
    show gf: "in_grid sz f" using f by (simp add: accessible_iff)
    show "val ?b f = val ?b (fst f1, snd f1) + 1 \<longrightarrow> f = q"
    proof
      assume "val ?b f = val ?b (fst f1, snd f1) + 1"
      then have "?s (val brd f) = a + j + 1" using val_map[OF wf gf] bf1 by simp
      from sigma_inj_at[OF this fixq] have "val brd f = val brd q" using q(2) by simp
      from chain_uniq[OF ch gf q(1) this] show "f = q" using q(2) \<open>val brd f = val brd q\<close> a j by simp
    qed
  qed
  then have "scan_value ?b (fst f1) (snd f1) 1 (get_accessible_fields sz (fst f1) (snd f1)) =
      Inr (Some q)"
    using scan_value_unique[OF wfb _ adj bq] g1 by simp
  then show ?thesis using q by (intro exI[of _ q]) (simp add: get_next_def)
qed

lemma prev_exact:
  assumes ch: "chain sz brd k" and a: "1 \<le> a" and j: "0 \<le> j"
    and g2: "in_grid sz f2" and v2: "val brd f2 = k - j" and le: "a + j + 1 \<le> k - j"
  shows "\<exists>q. in_grid sz q \<and> val brd q = k - j - 1 \<and>
           get_prev sz (map (map (sigma a k j)) brd) (fst f2) (snd f2) = Inr (Some q)"
proof -
  let ?s = "sigma a k j"
  let ?b = "map (map ?s) brd"
  have wf: "wf_board sz brd" using ch by (rule chain_wf)
  have wfb: "wf_board sz ?b" using wf by (rule wf_board_map)
  obtain q where q: "in_grid sz q" "val brd q = k - j - 1"
    using chain_ex[OF ch, of "k - j - 1"] a j le by auto
  have "f2 \<in> set (get_accessible_fields sz (fst q) (snd q))"
    using chain_adj[OF ch q(1) g2] v2 q(2) a j le by simp
  from accessible_sym[OF q(1) this]
  have adj: "q \<in> set (get_accessible_fields sz (fst f2) (snd f2))" .
  have bf2: "val ?b (fst f2, snd f2) = k - j"
    using val_map[OF wf g2] v2 j le by (simp add: sigma_def)
  have fixq: "?s (k - j - 1) = k - j - 1" using j le by (simp add: sigma_def)
  have bq: "val ?b q = val ?b (fst f2, snd f2) + (- 1)"
    using val_map[OF wf q(1)] q(2) bf2 fixq by simp
  have "in_grid sz f \<and> (val ?b f = val ?b (fst f2, snd f2) + (- 1) \<longrightarrow> f = q)"
    if f: "f \<in> set (get_accessible_fields sz (fst f2) (snd f2))" for f
  proof
    show gf: "in_grid sz f" using f by (simp add: accessible_iff)
    show "val ?b f = val ?b (fst f2, snd f2) + (- 1) \<longrightarrow> f = q"
    proof
      assume "val ?b f = val ?b (fst f2, snd f2) + (- 1)"
      then have "?s (val brd f) = k - j - 1" using val_map[OF wf gf] bf2 by simp
      from sigma_inj_at[OF this fixq] have "val brd f = val brd q" using q(2) by simp
      from chain_uniq[OF ch gf q(1) this] show "f = q"
        using q(2) \<open>val brd f = val brd q\<close> a j le by simp
    qed
  qed
  then have "scan_value ?b (fst f2) (snd f2) (- 1) (get_accessible_fields sz (fst f2) (snd f2)) =
      Inr (Some q)"
    using scan_value_unique[OF wfb _ adj bq] g2 by simp
  then show ?thesis using q by (intro exI[of _ q]) (simp add: get_prev_def)
qed

lemma get_next_total:
  assumes "wf_board sz b" and "in_grid sz f"
  shows "\<exists>res. get_next sz b (fst f) (snd f) = Inr res"
  unfolding get_next_def
  using scan_value_total[OF assms(1), of "fst f" "snd f"] assms(2)
  by (simp add: accessible_iff)

lemma get_prev_total:
  assumes "wf_board sz b" and "in_grid sz f"
  shows "\<exists>res. get_prev sz b (fst f) (snd f) = Inr res"
  unfolding get_prev_def
  using scan_value_total[OF assms(1), of "fst f" "snd f"] assms(2)
  by (simp add: accessible_iff)

lemma reverse_loop_sigma:
  assumes ch: "chain sz brd k" and a: "1 \<le> a"
  shows "0 \<le> j \<Longrightarrow> in_grid sz f1 \<Longrightarrow> in_grid sz f2 \<Longrightarrow> val brd f1 = a + j \<Longrightarrow>
         val brd f2 = k - j \<Longrightarrow> a + j \<le> k - j \<Longrightarrow> m = nat ((k - a - 2 * j) div 2) \<Longrightarrow>
         reverse_loop sz (Suc m) (map (map (sigma a k j)) brd) (Some f1) (Some f2) =
           Inr (map (map (sigma a k (j + int m + 1))) brd)"
proof (induction m arbitrary: j f1 f2)
  case 0
  have wfb: "wf_board sz (map (map (sigma a k j)) brd)"
    using chain_wf[OF ch] by (rule wf_board_map)
  obtain n1 where n1: "get_next sz (map (map (sigma a k j)) brd) (fst f1) (snd f1) = Inr n1"
    using get_next_total[OF wfb "0.prems"(2)] by blast
  obtain n2 where n2: "get_prev sz (map (map (sigma a k j)) brd) (fst f2) (snd f2) = Inr n2"
    using get_prev_total[OF wfb "0.prems"(3)] by blast
  have sw: "swap_cells (map (map (sigma a k j)) brd) f1 f2 =
      Inr (map (map (sigma a k (j + 1))) brd)"
    using ch a "0.prems"(1-6) by (rule reverse_step)
  show ?case using n1 n2 sw by simp
next
  case (Suc m)
  have "1 \<le> (k - a - 2 * j) div 2" using Suc.prems(7) by linarith
  then have gap: "a + j + 1 \<le> k - j - 1" by linarith
  then have le1: "a + j + 1 \<le> k - j" by simp
  obtain q1 where q1: "in_grid sz q1" "val brd q1 = a + j + 1"
    "get_next sz (map (map (sigma a k j)) brd) (fst f1) (snd f1) = Inr (Some q1)"
    using next_exact[OF ch a Suc.prems(1,2,4) le1] by blast
  obtain q2 where q2: "in_grid sz q2" "val brd q2 = k - j - 1"
    "get_prev sz (map (map (sigma a k j)) brd) (fst f2) (snd f2) = Inr (Some q2)"
    using prev_exact[OF ch a Suc.prems(1,3,5) le1] by blast
  have sw: "swap_cells (map (map (sigma a k j)) brd) f1 f2 =
      Inr (map (map (sigma a k (j + 1))) brd)"
    using ch a Suc.prems(1-6) by (rule reverse_step)
  have "(k - a - 2 * (j + 1)) div 2 = (k - a - 2 * j) div 2 - 1" by presburger
  then have m: "m = nat ((k - a - 2 * (j + 1)) div 2)" using Suc.prems(7) by linarith
  have "reverse_loop sz (Suc m) (map (map (sigma a k (j + 1))) brd) (Some q1) (Some q2) =
      Inr (map (map (sigma a k (j + 1 + int m + 1))) brd)"
    using Suc.prems(1) q1(1) q2(1) q1(2) q2(2) gap m
    by (intro Suc.IH) simp_all
  moreover have "j + 1 + int m + 1 = j + int (Suc m) + 1" by simp
  ultimately show ?case using q1(3) q2(3) sw by simp
qed

definition reflect :: "int \<Rightarrow> int \<Rightarrow> int \<Rightarrow> int" where
  "reflect a k v = (if a \<le> v \<and> v \<le> k then a + k - v else v)"

lemma sigma_zero: "sigma a k 0 = (\<lambda>v. v)"
  by (auto simp: sigma_def fun_eq_iff)

lemma sigma_full: "a \<le> k \<Longrightarrow> sigma a k ((k - a) div 2 + 1) = reflect a k"
proof (rule ext)
  fix v assume "a \<le> k"
  have "k - a - 1 \<le> 2 * ((k - a) div 2)" by linarith
  then show "sigma a k ((k - a) div 2 + 1) v = reflect a k v"
    using \<open>a \<le> k\<close> by (auto simp: sigma_def reflect_def)
qed

lemma reverse_loop_chain:
  assumes ch: "chain sz brd k" and a: "1 \<le> a" and lt: "a < k"
    and ge: "in_grid sz e" and gl: "in_grid sz las"
    and ve: "val brd e = a" and vl: "val brd las = k"
  shows "reverse_loop sz (nat ((k - a) div 2 + 1)) brd (Some e) (Some las) =
         Inr (map (map (reflect a k)) brd)"
proof -
  have nn: "0 \<le> (k - a) div 2" using lt by simp
  then have n: "nat ((k - a) div 2 + 1) = Suc (nat ((k - a) div 2))" by linarith
  have "reverse_loop sz (Suc (nat ((k - a) div 2))) (map (map (sigma a k 0)) brd) (Some e) (Some las) =
      Inr (map (map (sigma a k (0 + int (nat ((k - a) div 2)) + 1))) brd)"
    using ge gl ve vl lt by (intro reverse_loop_sigma[OF ch a]) simp_all
  moreover have "0 + int (nat ((k - a) div 2)) + 1 = (k - a) div 2 + 1" using nn by simp
  moreover have "map (map (sigma a k 0)) brd = brd" by (simp add: sigma_zero)
  ultimately show ?thesis using n sigma_full[of a k] lt by simp
qed

section \<open>The path-contiguity invariant\<close>

text \<open>
  The invariant of the specification: the filled values of the board are exactly the
  multiset \<open>{1, ..., k}\<close>, and the successor of every filled value stands a knight move
  away.
\<close>

definition filled_values :: "board \<Rightarrow> int multiset" where
  "filled_values brd = filter_mset (\<lambda>v. v \<noteq> 0) (mset (concat brd))"

definition contiguous :: "int \<Rightarrow> board \<Rightarrow> bool" where
  "contiguous sz brd \<longleftrightarrow>
     (\<forall>p\<in>set (all_fields sz). \<forall>q\<in>set (all_fields sz).
        val brd p \<noteq> 0 \<and> val brd q = val brd p + 1 \<longrightarrow>
        q \<in> set (get_accessible_fields sz (fst p) (snd p)))"

definition path_ok :: "int \<Rightarrow> board \<Rightarrow> int \<Rightarrow> bool" where
  "path_ok sz brd k \<longleftrightarrow>
     wf_board sz brd \<and> filled_values brd = mset [1..k] \<and> contiguous sz brd"

lemma set_all_fields: "set (all_fields sz) = {p. in_grid sz p}"
  by (auto simp: all_fields_def in_grid_def)

lemma val_in_concat:
  assumes "wf_board sz brd" and "in_grid sz p"
  shows "val brd p \<in> set (concat brd)"
proof -
  have r: "0 \<le> fst p" "fst p < sz" and c: "0 \<le> snd p" "snd p < sz"
    using assms(2) by (simp_all add: in_grid_def)
  have i: "nat (fst p) < length brd" using assms(1) r by (simp add: wf_board_def)
  have j: "nat (snd p) < length (brd ! nat (fst p))"
    using wf_board_row[OF assms(1) r] c by simp
  have "val brd p \<in> set (brd ! nat (fst p))" using j by (simp add: val_def)
  moreover have "brd ! nat (fst p) \<in> set brd" using i by simp
  ultimately show ?thesis by auto
qed

lemma concat_has_square:
  assumes "wf_board sz brd" and "v \<in> set (concat brd)"
  shows "\<exists>p. in_grid sz p \<and> val brd p = v"
proof -
  from assms(2) obtain row where row: "row \<in> set brd" "v \<in> set row" by auto
  then obtain i where i: "i < length brd" "brd ! i = row" by (auto simp: in_set_conv_nth)
  from row(2) obtain j where j: "j < length row" "row ! j = v" by (auto simp: in_set_conv_nth)
  have isz: "int i < sz" using i(1) assms(1) by (simp add: wf_board_def)
  have "length row = nat sz" using wf_board_row[OF assms(1), of "int i"] isz i(2) by simp
  then have "in_grid sz (int i, int j)" using isz j(1) by (simp add: in_grid_def)
  moreover have "val brd (int i, int j) = v" using i(2) j(2) by (simp add: val_def)
  ultimately show ?thesis by blast
qed

lemma count_list_two:
  assumes "j1 < length xs" and "j2 < length xs" and "j1 \<noteq> j2"
    and "xs ! j1 = v" and "xs ! j2 = v"
  shows "2 \<le> count_list xs v"
proof -
  have sub: "{j1, j2} \<subseteq> {i. i < length xs \<and> v = xs ! i}" using assms by auto
  have fin: "finite {i. i < length xs \<and> v = xs ! i}" by simp
  have "card {j1, j2} \<le> card {i. i < length xs \<and> v = xs ! i}"
    using fin sub by (rule card_mono)
  moreover have "card {j1, j2} = 2" using assms(3) by simp
  moreover have "count_list xs v = card {i. i < length xs \<and> v = xs ! i}"
    by (simp add: count_list_eq_length_filter length_filter_conv_card)
  ultimately show ?thesis by linarith
qed

lemma sum_list_two:
  assumes "i1 < length ns" and "i2 < length ns" and "i1 \<noteq> i2"
  shows "ns ! i1 + ns ! i2 \<le> sum_list (ns :: nat list)"
proof -
  have "sum ((!) ns) {i1, i2} \<le> sum ((!) ns) {0..<length ns}"
    using assms by (intro sum_mono2) auto
  then show ?thesis using assms(3) by (simp add: sum_list_sum_nth)
qed

lemma count_concat_two:
  assumes wf: "wf_board sz brd" and p: "in_grid sz p" and q: "in_grid sz q"
    and ne: "p \<noteq> q" and vp: "val brd p = v" and vq: "val brd q = v"
  shows "2 \<le> count_list (concat brd) v"
proof -
  let ?ns = "map (\<lambda>row. count_list row v) brd"
  have pr: "0 \<le> fst p" "fst p < sz" "0 \<le> snd p" "snd p < sz"
    using p by (simp_all add: in_grid_def)
  have qr: "0 \<le> fst q" "fst q < sz" "0 \<le> snd q" "snd q < sz"
    using q by (simp_all add: in_grid_def)
  have ip: "nat (fst p) < length brd" and iq: "nat (fst q) < length brd"
    using wf pr qr by (simp_all add: wf_board_def)
  have jp: "nat (snd p) < length (brd ! nat (fst p))"
    using wf_board_row[OF wf pr(1,2)] pr by simp
  have jq: "nat (snd q) < length (brd ! nat (fst q))"
    using wf_board_row[OF wf qr(1,2)] qr by simp
  have total: "count_list (concat brd) v = sum_list ?ns"
    by (simp add: count_list_concat)
  show ?thesis
  proof (cases "fst p = fst q")
    case True
    then have "snd p \<noteq> snd q" using ne by (auto simp: prod_eq_iff)
    then have "nat (snd p) \<noteq> nat (snd q)" using pr qr by simp
    then have "2 \<le> count_list (brd ! nat (fst p)) v"
      using jp jq vp vq True by (intro count_list_two[of "nat (snd p)" _ "nat (snd q)"])
        (simp_all add: val_def)
    moreover have "?ns ! nat (fst p) \<le> sum_list ?ns"
      using ip by (intro member_le_sum_list) simp_all
    ultimately show ?thesis using total ip by simp
  next
    case False
    then have d: "nat (fst p) \<noteq> nat (fst q)" using pr qr by simp
    have "1 \<le> count_list (brd ! nat (fst p)) v"
      using jp vp count_list_0_iff[of "brd ! nat (fst p)" v]
      by (cases "count_list (brd ! nat (fst p)) v") (auto simp: val_def)
    moreover have "1 \<le> count_list (brd ! nat (fst q)) v"
      using jq vq count_list_0_iff[of "brd ! nat (fst q)" v]
      by (cases "count_list (brd ! nat (fst q)) v") (auto simp: val_def)
    moreover have "?ns ! nat (fst p) + ?ns ! nat (fst q) \<le> sum_list ?ns"
      using ip iq d by (intro sum_list_two) simp_all
    ultimately show ?thesis using total ip iq by simp
  qed
qed

lemma path_ok_chain:
  assumes "path_ok sz brd k"
  shows "chain sz brd k"
proof -
  have wf: "wf_board sz brd" and fv: "filled_values brd = mset [1..k]"
    and cont: "contiguous sz brd"
    using assms by (simp_all add: path_ok_def)
  have mem: "v \<in> set (concat brd) \<and> v \<noteq> 0 \<longleftrightarrow> 1 \<le> v \<and> v \<le> k" for v
  proof -
    have "v \<in># filled_values brd \<longleftrightarrow> v \<in># mset [1..k]" using fv by simp
    then show ?thesis by (auto simp: filled_values_def)
  qed
  have range: "val brd p = 0 \<or> (1 \<le> val brd p \<and> val brd p \<le> k)" if "in_grid sz p" for p
    using mem[of "val brd p"] val_in_concat[OF wf that] by blast
  have ex: "\<exists>p. in_grid sz p \<and> val brd p = v" if "1 \<le> v \<and> v \<le> k" for v
    using mem[of v] that concat_has_square[OF wf] by blast
  have uniq: "p = q"
    if "in_grid sz p \<and> in_grid sz q \<and> val brd p = val brd q \<and> val brd p \<noteq> 0" for p q
  proof (rule ccontr)
    assume "p \<noteq> q"
    then have "2 \<le> count_list (concat brd) (val brd p)"
      using that by (intro count_concat_two[OF wf, of p q]) simp_all
    then have "2 \<le> count (filled_values brd) (val brd p)"
      using that by (simp add: filled_values_def count_mset)
    moreover have "count (mset [1..k]) (val brd p) \<le> 1"
      using distinct_upto[of 1 k] by (simp add: distinct_count_atmost_1)
    ultimately show False using fv by simp
  qed
  have adj: "q \<in> set (get_accessible_fields sz (fst p) (snd p))"
    if "in_grid sz p \<and> in_grid sz q \<and> val brd p \<noteq> 0 \<and> val brd q = val brd p + 1" for p q
    using cont that unfolding contiguous_def set_all_fields by blast
  show ?thesis
    unfolding chain_def using wf range ex uniq adj by blast
qed

lemma reflect_reflect: "reflect a k (reflect a k v) = v"
  by (auto simp: reflect_def)

lemma reflect_image: "1 \<le> a \<Longrightarrow> reflect a k ` {1..k} = {1..k}"
proof (intro equalityI subsetI)
  fix v assume "1 \<le> a" and "v \<in> reflect a k ` {1..k}"
  then show "v \<in> {1..k}" by (auto simp: reflect_def)
next
  fix v assume a: "1 \<le> a" and v: "v \<in> {1..k}"
  have "reflect a k v \<in> {1..k}" using a v by (auto simp: reflect_def)
  then have "reflect a k (reflect a k v) \<in> reflect a k ` {1..k}" by (rule imageI)
  then show "v \<in> reflect a k ` {1..k}" by (simp add: reflect_reflect)
qed

lemma mset_upto_set: "mset [i..j] = mset_set {i..j}"
  using mset_set_set[OF distinct_upto, of i j] by simp

lemma filled_values_reflect:
  assumes a: "1 \<le> a" and fv: "filled_values brd = mset [1..k]"
  shows "filled_values (map (map (reflect a k)) brd) = mset [1..k]"
proof -
  let ?f = "reflect a k"
  have nz: "?f v \<noteq> 0 \<longleftrightarrow> v \<noteq> 0" for v using a by (auto simp: reflect_def)
  have "concat (map (map ?f) brd) = map ?f (concat brd)" by (simp add: map_concat)
  then have "filled_values (map (map ?f) brd) =
      filter_mset (\<lambda>v. v \<noteq> 0) (image_mset ?f (mset (concat brd)))"
    by (simp add: filled_values_def)
  also have "\<dots> = image_mset ?f (filter_mset (\<lambda>v. ?f v \<noteq> 0) (mset (concat brd)))"
    by (rule filter_mset_image_mset)
  also have "\<dots> = image_mset ?f (filled_values brd)"
    by (simp add: nz filled_values_def)
  also have "\<dots> = image_mset ?f (mset_set {1..k})"
    by (simp add: fv mset_upto_set)
  also have "\<dots> = mset_set (?f ` {1..k})"
  proof (rule image_mset_mset_set)
    show "inj_on ?f {1..k}"
      by (rule inj_on_inverseI[where g = ?f]) (rule reflect_reflect)
  qed
  also have "\<dots> = mset [1..k]" using reflect_image[OF a] by (simp add: mset_upto_set)
  finally show ?thesis .
qed

lemma contiguous_reflect:
  assumes ch: "chain sz brd k" and a: "1 \<le> a" and ak: "a \<le> k"
    and junction: "a = 1 \<or> (\<exists>p q. in_grid sz p \<and> in_grid sz q \<and> val brd p = a - 1 \<and>
        val brd q = k \<and> q \<in> set (get_accessible_fields sz (fst p) (snd p)))"
  shows "contiguous sz (map (map (reflect a k)) brd)"
  unfolding contiguous_def set_all_fields
proof (intro ballI impI)
  fix p q
  assume "p \<in> {p. in_grid sz p}" and "q \<in> {p. in_grid sz p}"
  then have gp: "in_grid sz p" and gq: "in_grid sz q" by simp_all
  let ?b = "map (map (reflect a k)) brd"
  assume h: "val ?b p \<noteq> 0 \<and> val ?b q = val ?b p + 1"
  have wf: "wf_board sz brd" using ch by (rule chain_wf)
  define x where "x = val brd p"
  define y where "y = val brd q"
  have hx: "reflect a k x \<noteq> 0" and hy: "reflect a k y = reflect a k x + 1"
    using h val_map[OF wf gp] val_map[OF wf gq] by (simp_all add: x_def y_def)
  have xr: "1 \<le> x \<and> x \<le> k"
    using chain_range[OF ch gp] hx a by (auto simp: x_def reflect_def)
  have yr: "1 \<le> y \<and> y \<le> k"
    using chain_range[OF ch gq] hy xr a by (auto simp: y_def reflect_def split: if_splits)
  show "q \<in> set (get_accessible_fields sz (fst p) (snd p))"
  proof (cases "x < a")
    case xl: True
    show ?thesis
    proof (cases "y < a")
      case True
      then have "y = x + 1" using hy xl by (simp add: reflect_def)
      then show ?thesis
        using chain_adj[OF ch gp gq] xr by (simp add: x_def y_def)
    next
      case False
      then have "y = k \<and> x = a - 1" using hy xl yr xr by (auto simp: reflect_def)
      moreover from this xr have "a \<noteq> 1" by auto
      ultimately obtain p' q' where j: "in_grid sz p'" "in_grid sz q'" "val brd p' = x"
        "val brd q' = y" "q' \<in> set (get_accessible_fields sz (fst p') (snd p'))"
        using junction by auto
      have "p' = p" using chain_uniq[OF ch j(1) gp] j(3) xr by (simp add: x_def)
      moreover have "q' = q" using chain_uniq[OF ch j(2) gq] j(4) yr by (simp add: y_def)
      ultimately show ?thesis using j(5) by simp
    qed
  next
    case xg: False
    have "a \<le> y" using hy xg xr yr by (auto simp: reflect_def split: if_splits)
    then have "x = y + 1" using hy xg xr yr by (auto simp: reflect_def split: if_splits)
    then have "p \<in> set (get_accessible_fields sz (fst q) (snd q))"
      using chain_adj[OF ch gq gp] yr by (simp add: x_def y_def)
    from accessible_sym[OF gq this] show ?thesis .
  qed
qed

lemma path_ok_reflect:
  assumes "path_ok sz brd k" and "1 \<le> a" and "a \<le> k"
    and "a = 1 \<or> (\<exists>p q. in_grid sz p \<and> in_grid sz q \<and> val brd p = a - 1 \<and>
        val brd q = k \<and> q \<in> set (get_accessible_fields sz (fst p) (snd p)))"
  shows "path_ok sz (map (map (reflect a k)) brd) k"
proof -
  have "wf_board sz (map (map (reflect a k)) brd)"
    using assms(1) by (simp add: path_ok_def wf_board_map)
  moreover have "filled_values (map (map (reflect a k)) brd) = mset [1..k]"
    using assms(1,2) by (simp add: path_ok_def filled_values_reflect)
  moreover have "contiguous sz (map (map (reflect a k)) brd)"
    using path_ok_chain[OF assms(1)] assms(2,3,4) by (rule contiguous_reflect)
  ultimately show ?thesis by (simp add: path_ok_def)
qed

section \<open>The candidates of the rerouter\<close>

lemma possible_ends_loop_mem:
  "possible_ends_loop sz brd fields = Inr ends \<Longrightarrow> en \<in> set ends \<Longrightarrow>
   \<exists>field\<in>set fields. get_next sz brd (fst field) (snd field) = Inr en"
proof (induction fields arbitrary: ends)
  case Nil
  then show ?case by simp
next
  case (Cons field fields)
  from Cons.prems(1) obtain e0 es where
    e0: "get_next sz brd (fst field) (snd field) = Inr e0"
    and es: "possible_ends_loop sz brd fields = Inr es" and ends: "ends = e0 # es"
    by (auto split: sum.splits)
  show ?case
  proof (cases "en = e0")
    case True
    then show ?thesis using e0 by simp
  next
    case False
    then have "en \<in> set es" using Cons.prems(2) ends by simp
    from Cons.IH[OF es this] show ?thesis by auto
  qed
qed

lemma yields_reroute_gen:
  "cand \<in> set (yields (reroute_gen sz brd las ends)) \<Longrightarrow>
   \<exists>en\<in>set ends. en \<noteq> Some las \<and> reroute_step sz brd las en = Some (Inr cand)"
proof (induction ends)
  case Nil
  then show ?case by simp
next
  case (Cons en ends)
  show ?case
  proof (cases "en = Some las")
    case True
    then show ?thesis using Cons by simp
  next
    case ne: False
    show ?thesis
    proof (cases "reroute_step sz brd las en")
      case None
      then show ?thesis using Cons.prems ne by simp
    next
      case (Some out)
      show ?thesis
      proof (cases out)
        case (Inl e)
        then show ?thesis using Cons.prems ne Some by simp
      next
        case (Inr c)
        then have "cand = c \<or> cand \<in> set (yields (reroute_gen sz brd las ends))"
          using Cons.prems ne Some by simp
        then show ?thesis
        proof
          assume "cand = c"
          then show ?thesis using ne Some Inr by simp
        next
          assume "cand \<in> set (yields (reroute_gen sz brd las ends))"
          from Cons.IH[OF this] show ?thesis by auto
        qed
      qed
    qed
  qed
qed

lemma reroute_step_Some:
  assumes "reroute_step sz brd las en = Some (Inr cand)"
  shows "\<exists>e vl ve b rk. en = Some e \<and> cand = (b, e, rk) \<and>
           cell brd (fst las) (snd las) = Inr vl \<and> cell brd (fst e) (snd e) = Inr ve \<and>
           reverse_loop sz (nat ((vl - ve) div 2 + 1)) brd (Some e) (Some las) = Inr b \<and>
           get_rank sz b None = Some (Inr rk)"
  using assms unfolding reroute_step_def
  by (auto split: sum.splits option.splits)

lemma reroute_candidate:
  assumes "cand \<in> set (yields (reroute sz brd las))"
  shows "\<exists>field e vl ve b rk. cand = (b, e, rk) \<and>
           field \<in> set (get_accessible_fields sz (fst las) (snd las)) \<and>
           get_next sz brd (fst field) (snd field) = Inr (Some e) \<and> e \<noteq> las \<and>
           cell brd (fst las) (snd las) = Inr vl \<and> cell brd (fst e) (snd e) = Inr ve \<and>
           reverse_loop sz (nat ((vl - ve) div 2 + 1)) brd (Some e) (Some las) = Inr b \<and>
           get_rank sz b None = Some (Inr rk)"
proof -
  from assms obtain ends where pe: "possible_ends sz brd las = Inr ends"
    and c: "cand \<in> set (yields (reroute_gen sz brd las ends))"
    by (auto simp: reroute_def split: sum.splits)
  from yields_reroute_gen[OF c] obtain en where en: "en \<in> set ends" "en \<noteq> Some las"
    and st: "reroute_step sz brd las en = Some (Inr cand)" by blast
  from reroute_step_Some[OF st] obtain e vl ve b rk where r: "en = Some e" "cand = (b, e, rk)"
    "cell brd (fst las) (snd las) = Inr vl" "cell brd (fst e) (snd e) = Inr ve"
    "reverse_loop sz (nat ((vl - ve) div 2 + 1)) brd (Some e) (Some las) = Inr b"
    "get_rank sz b None = Some (Inr rk)" by blast
  from possible_ends_loop_mem[OF pe[unfolded possible_ends_def] en(1)] obtain field where
    f: "field \<in> set (get_accessible_fields sz (fst las) (snd las))"
    "get_next sz brd (fst field) (snd field) = Inr en" by blast
  have "e \<noteq> las" using en(2) r(1) by simp
  with r f show ?thesis by blast
qed

lemma reroute_end_path:
  assumes po: "path_ok sz brd k" and gl: "in_grid sz las"
    and cl: "cell brd (fst las) (snd las) = Inr k"
    and f: "field \<in> set (get_accessible_fields sz (fst las) (snd las))"
    and gn: "get_next sz brd (fst field) (snd field) = Inr (Some e)" and ne: "e \<noteq> las"
  shows "\<exists>a. 1 \<le> a \<and> a < k \<and> in_grid sz e \<and> val brd e = a \<and>
           reverse_loop sz (nat ((k - a) div 2 + 1)) brd (Some e) (Some las) =
             Inr (map (map (reflect a k)) brd) \<and>
           path_ok sz (map (map (reflect a k)) brd) k"
proof -
  have ch: "chain sz brd k" using po by (rule path_ok_chain)
  have wf: "wf_board sz brd" using ch by (rule chain_wf)
  have vl: "val brd las = k" using cell_val[OF wf gl] cl by simp
  have gf: "in_grid sz field" using f by (simp add: accessible_iff)
  from scan_value_found[OF gn[unfolded get_next_def]] obtain w where
    w: "cell brd (fst field) (snd field) = Inr w" "cell brd (fst e) (snd e) = Inr (w + 1)"
    "e \<in> set (get_accessible_fields sz (fst field) (snd field))" by blast
  have ge: "in_grid sz e" using w(3) by (simp add: accessible_iff)
  have vf: "val brd field = w" using cell_val[OF wf gf] w(1) by simp
  have ve: "val brd e = w + 1" using cell_val[OF wf ge] w(2) by simp
  have a1: "1 \<le> w + 1" using chain_range[OF ch gf] vf by auto
  have ak: "w + 1 \<le> k" using chain_range[OF ch ge] ve a1 by auto
  have "w + 1 \<noteq> k" using chain_uniq[OF ch ge gl] ve vl ne a1 by auto
  then have lt: "w + 1 < k" using ak by simp
  have junction: "w + 1 = 1 \<or> (\<exists>p q. in_grid sz p \<and> in_grid sz q \<and> val brd p = w + 1 - 1 \<and>
        val brd q = k \<and> q \<in> set (get_accessible_fields sz (fst p) (snd p)))"
  proof (cases "w = 0")
    case True
    then show ?thesis by simp
  next
    case False
    have "las \<in> set (get_accessible_fields sz (fst field) (snd field))"
      using accessible_sym[OF gl f] .
    then show ?thesis using gf gl vf vl
      by (intro disjI2 exI[of _ field] exI[of _ las]) simp
  qed
  have "reverse_loop sz (nat ((k - (w + 1)) div 2 + 1)) brd (Some e) (Some las) =
      Inr (map (map (reflect (w + 1) k)) brd)"
    using ch a1 lt ge gl ve vl by (rule reverse_loop_chain)
  moreover have "path_ok sz (map (map (reflect (w + 1) k)) brd) k"
    using po a1 ak junction by (rule path_ok_reflect)
  ultimately show ?thesis using a1 lt ge ve by blast
qed

text \<open>
  Claim C2. On a board that carries a path \<open>1..k\<close> whose last square \<open>las\<close> holds \<open>k\<close>,
  every candidate board that \<open>reroute\<close> yields carries a path \<open>1..k\<close> again: the same
  multiset of filled values, consecutive values a knight move apart.
\<close>

theorem reroute_preserves_path:
  assumes "path_ok sz brd k" and "in_grid sz las"
    and "cell brd (fst las) (snd las) = Inr k"
    and "cand \<in> set (yields (reroute sz brd las))"
  shows "path_ok sz (fst cand) k"
proof -
  from reroute_candidate[OF assms(4)] obtain field e vl ve b rk where
    c: "cand = (b, e, rk)"
    and f: "field \<in> set (get_accessible_fields sz (fst las) (snd las))"
    and gn: "get_next sz brd (fst field) (snd field) = Inr (Some e)" and ne: "e \<noteq> las"
    and cl: "cell brd (fst las) (snd las) = Inr vl" and ce: "cell brd (fst e) (snd e) = Inr ve"
    and rl: "reverse_loop sz (nat ((vl - ve) div 2 + 1)) brd (Some e) (Some las) = Inr b"
    by blast
  from reroute_end_path[OF assms(1,2,3) f gn ne] obtain a where
    a: "in_grid sz e" "val brd e = a"
    "reverse_loop sz (nat ((k - a) div 2 + 1)) brd (Some e) (Some las) =
       Inr (map (map (reflect a k)) brd)"
    "path_ok sz (map (map (reflect a k)) brd) k" by blast
  have wf: "wf_board sz brd" using assms(1) by (simp add: path_ok_def)
  have "vl = k" using cl assms(3) by simp
  moreover have "ve = a" using cell_val[OF wf a(1)] ce a(2) by simp
  ultimately have "b = map (map (reflect a k)) brd" using rl a(3) by simp
  then show ?thesis using a(4) c by simp
qed

definition board4 :: board where
  "board4 = [[4, 0, 0, 0], [0, 0, 3, 0], [0, 1, 0, 0], [0, 0, 0, 2]]"

definition board4_rerouted :: board where
  "board4_rerouted = [[2, 0, 0, 0], [0, 0, 3, 0], [0, 1, 0, 0], [0, 0, 0, 4]]"

lemma reroute_board4:
  "reroute 4 board4 (0, 0) = Yield (board4_rerouted, (3, 3), 2) Stop"
  by code_simp

lemma path_ok_board4: "path_ok 4 board4 4"
  by code_simp

lemma path_ok_board4_rerouted: "path_ok 4 board4_rerouted 4"
  by code_simp

theorem reroute_preserves_path_witness:
  "path_ok 4 board4 4 \<and> in_grid 4 (0, 0) \<and> cell board4 0 0 = Inr 4 \<and>
   yields (reroute 4 board4 (0, 0)) = [(board4_rerouted, (3, 3), 2)] \<and>
   path_ok 4 board4_rerouted 4"
proof -
  have g: "in_grid 4 (0, 0)" by (simp add: in_grid_def)
  have c: "cell board4 (fst (0, 0)) (snd (0, 0)) = Inr 4" by code_simp
  have y: "yields (reroute 4 board4 (0, 0)) = [(board4_rerouted, (3, 3), 2)]"
    by (simp add: reroute_board4)
  then have m: "(board4_rerouted, (3, 3), 2) \<in> set (yields (reroute 4 board4 (0, 0)))"
    by simp
  from reroute_preserves_path[OF path_ok_board4 g c m]
  have "path_ok 4 board4_rerouted 4" by simp
  with path_ok_board4 g c y show ?thesis by simp
qed

section \<open>The rerouter never faults on a blocked path\<close>

fun raises :: "'a gen \<Rightarrow> bool" where
  "raises Stop \<longleftrightarrow> False"
| "raises (Yield x g) \<longleftrightarrow> raises g"
| "raises (Raised e) \<longleftrightarrow> True"
| "raises Hang \<longleftrightarrow> False"

lemma not_self_accessible: "p \<notin> set (get_accessible_fields sz (fst p) (snd p))"
  by (simp add: accessible_iff deltas_def)

lemma get_next_on_path:
  assumes ch: "chain sz brd k" and g: "in_grid sz field"
    and w: "1 \<le> val brd field" "val brd field < k"
  shows "\<exists>q. in_grid sz q \<and> val brd q = val brd field + 1 \<and>
           get_next sz brd (fst field) (snd field) = Inr (Some q)"
proof -
  have "map (map (sigma (val brd field) k 0)) brd = brd" by (simp add: sigma_zero)
  moreover have "\<exists>q. in_grid sz q \<and> val brd q = val brd field + 0 + 1 \<and>
      get_next sz (map (map (sigma (val brd field) k 0)) brd) (fst field) (snd field) =
        Inr (Some q)"
    using w by (intro next_exact[OF ch _ _ g]) simp_all
  ultimately show ?thesis by simp
qed

lemma possible_ends_loop_filled:
  assumes ch: "chain sz brd k"
  shows "(\<forall>f\<in>set fields. in_grid sz f \<and> 1 \<le> val brd f \<and> val brd f < k) \<Longrightarrow>
         \<exists>es. possible_ends_loop sz brd fields = Inr (map Some es)"
proof (induction fields)
  case Nil
  have "possible_ends_loop sz brd [] = Inr (map Some [])" by simp
  then show ?case by blast
next
  case (Cons f fields)
  have "in_grid sz f" "1 \<le> val brd f" "val brd f < k" using Cons.prems by simp_all
  from get_next_on_path[OF ch this] obtain q where
    q: "get_next sz brd (fst f) (snd f) = Inr (Some q)" by blast
  from Cons obtain es where es: "possible_ends_loop sz brd fields = Inr (map Some es)"
    by auto
  have "possible_ends_loop sz brd (f # fields) = Inr (map Some (q # es))"
    using q es by simp
  then show ?case by blast
qed

lemma get_max_loop_total:
  assumes "wf_board sz b"
  shows "(\<forall>f\<in>set fields. in_grid sz f) \<Longrightarrow> \<exists>m'. get_max_loop b m fields = Inr m'"
proof (induction fields arbitrary: m)
  case Nil
  show ?case by (intro exI[of _ m]) simp
next
  case (Cons f fields)
  have "in_grid sz f" using Cons.prems by simp
  from cell_val[OF assms this] Cons show ?case by simp
qed

lemma get_rank_no_error:
  assumes "wf_board sz b"
  shows "get_rank sz b None \<noteq> Some (Inl err)"
proof -
  have grid: "\<forall>f\<in>set (all_fields sz). in_grid sz f" by (simp add: set_all_fields)
  obtain m where m: "get_max_loop b (0, (0, 0)) (all_fields sz) = Inr m"
    using get_max_loop_total[OF assms grid] by blast
  have ke: "keep_empty b (all_fields sz) =
      Inr (filter (\<lambda>f. cell b (fst f) (snd f) = Inr 0) (all_fields sz))"
    using keep_empty_wf[OF assms grid] .
  show ?thesis
    by (simp add: get_rank_def get_max_def m ke)
qed

lemma reroute_step_no_error:
  assumes po: "path_ok sz brd k" and gl: "in_grid sz las"
    and cl: "cell brd (fst las) (snd las) = Inr k"
    and f: "field \<in> set (get_accessible_fields sz (fst las) (snd las))"
    and gn: "get_next sz brd (fst field) (snd field) = Inr (Some e)" and ne: "e \<noteq> las"
  shows "reroute_step sz brd las (Some e) \<noteq> Some (Inl err)"
proof -
  from reroute_end_path[OF po gl cl f gn ne] obtain a where
    a: "in_grid sz e" "val brd e = a"
    "reverse_loop sz (nat ((k - a) div 2 + 1)) brd (Some e) (Some las) =
       Inr (map (map (reflect a k)) brd)"
    "path_ok sz (map (map (reflect a k)) brd) k" by blast
  have wf: "wf_board sz brd" using po by (simp add: path_ok_def)
  have ce: "cell brd (fst e) (snd e) = Inr a" using cell_val[OF wf a(1)] a(2) by simp
  have "wf_board sz (map (map (reflect a k)) brd)" using a(4) by (simp add: path_ok_def)
  then have "get_rank sz (map (map (reflect a k)) brd) None \<noteq> Some (Inl x)" for x
    by (rule get_rank_no_error)
  then show ?thesis
    by (simp add: reroute_step_def cl ce a(3) split: option.splits sum.splits)
qed

lemma reroute_gen_no_raise:
  "(\<forall>en\<in>set ends. en \<noteq> Some las \<longrightarrow> (\<forall>err. reroute_step sz brd las en \<noteq> Some (Inl err))) \<Longrightarrow>
   \<not> raises (reroute_gen sz brd las ends)"
  by (induction ends) (auto split: option.splits sum.splits)

text \<open>
  Claim C10. On a board that carries a path \<open>1..k\<close> whose last square \<open>las\<close> holds \<open>k\<close>
  and has only filled neighbours, every \<open>end\<close> that \<open>reroute\<close> computes is a square of
  the board (never \<open>None\<close>), the reversal loop for every \<open>end\<close> other than \<open>las\<close> runs to
  its end and returns a board, and the generator raises no exception at all.
\<close>

theorem reroute_never_faults:
  assumes "path_ok sz brd k" and "in_grid sz las"
    and "cell brd (fst las) (snd las) = Inr k"
    and "\<forall>f\<in>set (get_accessible_fields sz (fst las) (snd las)). cell brd (fst f) (snd f) \<noteq> Inr 0"
  shows "\<exists>es. possible_ends sz brd las = Inr (map Some es) \<and>
           (\<forall>e\<in>set es. in_grid sz e \<and>
              (e \<noteq> las \<longrightarrow>
                 (\<exists>b. reverse_loop sz (nat ((k - val brd e) div 2 + 1)) brd (Some e) (Some las) =
                        Inr b \<and> wf_board sz b))) \<and>
           \<not> raises (reroute sz brd las)"
proof -
  have ch: "chain sz brd k" using assms(1) by (rule path_ok_chain)
  have wf: "wf_board sz brd" using ch by (rule chain_wf)
  have vl: "val brd las = k" using cell_val[OF wf assms(2)] assms(3) by simp
  let ?fields = "get_accessible_fields sz (fst las) (snd las)"
  have filled: "in_grid sz f \<and> 1 \<le> val brd f \<and> val brd f < k" if f: "f \<in> set ?fields" for f
  proof -
    have g: "in_grid sz f" using f by (simp add: accessible_iff)
    have nz: "val brd f \<noteq> 0" using assms(4) f cell_val[OF wf g] by auto
    then have r: "1 \<le> val brd f \<and> val brd f \<le> k" using chain_range[OF ch g] by simp
    have "f \<noteq> las" using f not_self_accessible by blast
    then have "val brd f \<noteq> k" using chain_uniq[OF ch g assms(2)] vl nz by auto
    then show ?thesis using g r by simp
  qed
  then obtain es where es: "possible_ends_loop sz brd ?fields = Inr (map Some es)"
    using possible_ends_loop_filled[OF ch, of ?fields] by blast
  then have pe: "possible_ends sz brd las = Inr (map Some es)"
    by (simp add: possible_ends_def)
  have step: "in_grid sz e \<and>
      (e \<noteq> las \<longrightarrow>
         (\<exists>b. reverse_loop sz (nat ((k - val brd e) div 2 + 1)) brd (Some e) (Some las) = Inr b \<and>
               wf_board sz b) \<and>
         (\<forall>err. reroute_step sz brd las (Some e) \<noteq> Some (Inl err)))"
    if e: "e \<in> set es" for e
  proof -
    have "Some e \<in> set (map Some es)" using e by simp
    from possible_ends_loop_mem[OF es this] obtain field where
      f: "field \<in> set ?fields" "get_next sz brd (fst field) (snd field) = Inr (Some e)"
      by blast
    from scan_value_found[OF f(2)[unfolded get_next_def]]
    have ge: "in_grid sz e" by (auto simp: accessible_iff)
    have "(\<exists>b. reverse_loop sz (nat ((k - val brd e) div 2 + 1)) brd (Some e) (Some las) = Inr b \<and>
               wf_board sz b) \<and>
         (\<forall>err. reroute_step sz brd las (Some e) \<noteq> Some (Inl err))" if ne: "e \<noteq> las"
    proof -
      from reroute_end_path[OF assms(1,2,3) f ne] obtain a where
        a: "val brd e = a"
        "reverse_loop sz (nat ((k - a) div 2 + 1)) brd (Some e) (Some las) =
           Inr (map (map (reflect a k)) brd)" by blast
      have "wf_board sz (map (map (reflect a k)) brd)" using wf by (rule wf_board_map)
      then show ?thesis
        using a reroute_step_no_error[OF assms(1,2,3) f ne] by auto
    qed
    then show ?thesis using ge by blast
  qed
  have "\<not> raises (reroute_gen sz brd las (map Some es))"
    using step by (intro reroute_gen_no_raise) auto
  then have "\<not> raises (reroute sz brd las)" by (simp add: reroute_def pe)
  then show ?thesis using pe step by blast
qed

theorem reroute_never_faults_witness:
  "path_ok 4 board4 4 \<and> in_grid 4 (0, 0) \<and> cell board4 0 0 = Inr 4 \<and>
   get_accessible_fields 4 0 0 = [(2, 1), (1, 2)] \<and>
   cell board4 2 1 = Inr 1 \<and> cell board4 1 2 = Inr 3 \<and>
   possible_ends 4 board4 (0, 0) = Inr [Some (3, 3), Some (0, 0)] \<and>
   \<not> raises (reroute 4 board4 (0, 0))"
proof -
  have g: "in_grid 4 (0, 0)" by (simp add: in_grid_def)
  have c: "cell board4 (fst (0, 0)) (snd (0, 0)) = Inr 4" by code_simp
  have acc: "get_accessible_fields 4 0 0 = [(2, 1), (1, 2)]" by code_simp
  have c1: "cell board4 2 1 = Inr 1" and c2: "cell board4 1 2 = Inr 3" by code_simp+
  have filled: "\<forall>f\<in>set (get_accessible_fields 4 (fst (0, 0)) (snd (0, 0))).
      cell board4 (fst f) (snd f) \<noteq> Inr 0"
    by (simp add: acc c1 c2)
  have pe: "possible_ends 4 board4 (0, 0) = Inr [Some (3, 3), Some (0, 0)]" by code_simp
  from reroute_never_faults[OF path_ok_board4 g c filled]
  have "\<not> raises (reroute 4 board4 (0, 0))" by blast
  with path_ok_board4 g c acc c1 c2 pe show ?thesis by simp
qed

section \<open>The terminal square of a candidate\<close>

lemma get_max_loop_unique:
  assumes wf: "wf_board sz b"
  shows "(\<forall>f\<in>set fields. in_grid sz f \<and> val b f \<le> k \<and> (val b f = k \<longrightarrow> f = q)) \<Longrightarrow>
         (fst m < k \<and> q \<in> set fields \<and> val b q = k) \<or> m = (k, q) \<Longrightarrow>
         get_max_loop b m fields = Inr (k, q)"
proof (induction fields arbitrary: m)
  case Nil
  then have "m = (k, q)" by simp
  then show ?case by simp
next
  case (Cons f fields)
  have g: "in_grid sz f" and le: "val b f \<le> k" and only: "val b f = k \<longrightarrow> f = q"
    using Cons.prems(1) by simp_all
  have cf: "cell b (fst f) (snd f) = Inr (val b f)" using cell_val[OF wf g] .
  let ?m' = "if val b f > fst m then (val b f, f) else m"
  have rest: "\<forall>f\<in>set fields. in_grid sz f \<and> val b f \<le> k \<and> (val b f = k \<longrightarrow> f = q)"
    using Cons.prems(1) by simp
  have inv: "(fst ?m' < k \<and> q \<in> set fields \<and> val b q = k) \<or> ?m' = (k, q)"
  proof (cases "m = (k, q)")
    case True
    then show ?thesis using le by simp
  next
    case False
    then have m: "fst m < k" "q \<in> set (f # fields)" "val b q = k"
      using Cons.prems(2) by auto
    show ?thesis
    proof (cases "f = q")
      case True
      then show ?thesis using m by simp
    next
      case False
      then have "val b f < k" using le only by auto
      moreover have "q \<in> set fields" using m(2) False by simp
      ultimately show ?thesis using m by simp
    qed
  qed
  have "get_max_loop b m (f # fields) = get_max_loop b ?m' fields"
    using cf by simp
  also have "\<dots> = Inr (k, q)" using rest inv by (rule Cons.IH)
  finally show ?case .
qed

text \<open>
  Claim C3, amended. The terminal square in a candidate is \<open>end\<close>, not the original
  \<open>last\<close>: \<open>end\<close> is the successor of an accessible neighbour of \<open>last\<close> and differs from
  \<open>last\<close>. On a board carrying a path \<open>1..k\<close> with \<open>last\<close> holding \<open>k\<close>, after the
  reversal \<open>end\<close> holds the maximum \<open>k\<close> and \<open>last\<close> holds the value \<open>end\<close> held before;
  the third component is the rank of the rerouted board, measured from \<open>end\<close>.
\<close>

theorem reroute_candidate_terminal:
  assumes "path_ok sz brd k" and "in_grid sz las"
    and "cell brd (fst las) (snd las) = Inr k"
    and "(b, e, rk) \<in> set (yields (reroute sz brd las))"
  shows "e \<noteq> las \<and>
         (\<exists>field\<in>set (get_accessible_fields sz (fst las) (snd las)).
            get_next sz brd (fst field) (snd field) = Inr (Some e)) \<and>
         cell b (fst e) (snd e) = Inr k \<and>
         cell b (fst las) (snd las) = cell brd (fst e) (snd e) \<and>
         get_max sz b = Inr e \<and>
         get_rank sz b None = Some (Inr rk) \<and>
         get_rank sz b (Some e) = Some (Inr rk)"
proof -
  from reroute_candidate[OF assms(4)] obtain field vl ve where
    f: "field \<in> set (get_accessible_fields sz (fst las) (snd las))"
    and gn: "get_next sz brd (fst field) (snd field) = Inr (Some e)" and ne: "e \<noteq> las"
    and cl: "cell brd (fst las) (snd las) = Inr vl" and ce: "cell brd (fst e) (snd e) = Inr ve"
    and rl: "reverse_loop sz (nat ((vl - ve) div 2 + 1)) brd (Some e) (Some las) = Inr b"
    and gr: "get_rank sz b None = Some (Inr rk)"
    by blast
  from reroute_end_path[OF assms(1,2,3) f gn ne] obtain a where
    a: "1 \<le> a" "a < k" "in_grid sz e" "val brd e = a"
    "reverse_loop sz (nat ((k - a) div 2 + 1)) brd (Some e) (Some las) =
       Inr (map (map (reflect a k)) brd)" by blast
  have ch: "chain sz brd k" using assms(1) by (rule path_ok_chain)
  have wf: "wf_board sz brd" using ch by (rule chain_wf)
  have vlk: "vl = k" using cl assms(3) by simp
  have vea: "ve = a" using cell_val[OF wf a(3)] ce a(4) by simp
  have b: "b = map (map (reflect a k)) brd" using rl a(5) vlk vea by simp
  have wfb: "wf_board sz b" unfolding b using wf by (rule wf_board_map)
  have vb: "val b p = reflect a k (val brd p)" if "in_grid sz p" for p
    unfolding b using wf that by (rule val_map)
  have vle: "val brd las = k" using cell_val[OF wf assms(2)] assms(3) by simp
  have be: "val b e = k" using vb[OF a(3)] a by (simp add: reflect_def)
  have bl: "val b las = a" using vb[OF assms(2)] vle a by (simp add: reflect_def)
  have c1: "cell b (fst e) (snd e) = Inr k" using cell_val[OF wfb a(3)] be by simp
  have c2: "cell b (fst las) (snd las) = cell brd (fst e) (snd e)"
    using cell_val[OF wfb assms(2)] bl ce vea by simp
  have all: "in_grid sz p \<and> val b p \<le> k \<and> (val b p = k \<longrightarrow> p = e)"
    if p: "p \<in> set (all_fields sz)" for p
  proof -
    have g: "in_grid sz p" using p by (simp add: set_all_fields)
    have r: "val brd p = 0 \<or> (1 \<le> val brd p \<and> val brd p \<le> k)" using chain_range[OF ch g] .
    have le: "val b p \<le> k" using vb[OF g] r a by (auto simp: reflect_def)
    have "p = e" if "val b p = k"
    proof -
      have "reflect a k (val brd p) = k" using that vb[OF g] by simp
      then have "val brd p = a" using r a by (auto simp: reflect_def split: if_splits)
      then show ?thesis using chain_uniq[OF ch g a(3)] a by simp
    qed
    then show ?thesis using g le by blast
  qed
  have mem: "e \<in> set (all_fields sz)" using a(3) by (simp add: set_all_fields)
  have all': "\<forall>p\<in>set (all_fields sz). in_grid sz p \<and> val b p \<le> k \<and> (val b p = k \<longrightarrow> p = e)"
    using all by blast
  have start: "(fst (0 :: int, (0, 0) :: pos) < k \<and> e \<in> set (all_fields sz) \<and> val b e = k) \<or>
      (0, (0, 0)) = (k, e)"
    using mem be a(1,2) by simp
  have "get_max_loop b (0, (0, 0)) (all_fields sz) = Inr (k, e)"
    using all' start by (rule get_max_loop_unique[OF wfb])
  then have gm: "get_max sz b = Inr e" by (simp add: get_max_def)
  have "get_rank sz b (Some e) = get_rank sz b None"
    by (simp add: get_rank_def gm)
  then have r2: "get_rank sz b (Some e) = Some (Inr rk)" using gr by simp
  have ex: "\<exists>field\<in>set (get_accessible_fields sz (fst las) (snd las)).
      get_next sz brd (fst field) (snd field) = Inr (Some e)"
    using f gn by (rule bexI[rotated])
  from ne ex c1 c2 gm gr r2 show ?thesis
    by (intro conjI)
qed

theorem reroute_candidate_terminal_witness:
  "path_ok 4 board4 4 \<and> in_grid 4 (0, 0) \<and> cell board4 0 0 = Inr 4 \<and>
   (board4_rerouted, (3, 3), 2) \<in> set (yields (reroute 4 board4 (0, 0))) \<and>
   cell board4_rerouted 3 3 = Inr 4 \<and> get_max 4 board4_rerouted = Inr (3, 3) \<and>
   get_rank 4 board4_rerouted (Some (3, 3)) = Some (Inr 2)"
proof -
  have g: "in_grid 4 (0, 0)" by (simp add: in_grid_def)
  have c: "cell board4 (fst (0, 0)) (snd (0, 0)) = Inr 4" by code_simp
  have m: "(board4_rerouted, (3, 3), 2) \<in> set (yields (reroute 4 board4 (0, 0)))"
    by (simp add: reroute_board4)
  note t = reroute_candidate_terminal[OF path_ok_board4 g c m]
  note t1 = t[THEN conjunct2, THEN conjunct2, THEN conjunct1]
  note t2 = t[THEN conjunct2, THEN conjunct2, THEN conjunct2, THEN conjunct2, THEN conjunct1]
  note t3 = t[THEN conjunct2, THEN conjunct2, THEN conjunct2, THEN conjunct2, THEN conjunct2,
    THEN conjunct2]
  have c': "cell board4 0 0 = Inr 4" using c by simp
  have t1': "cell board4_rerouted 3 3 = Inr 4" using t1 by simp
  from path_ok_board4 g c' m t1' t2 t3 show ?thesis
    by (intro conjI)
qed

text \<open>
  On the 4x4 board with the path 1, 2, 3, 4 ending on \<open>(0, 0)\<close>, the only candidate has
  the terminal \<open>(3, 3)\<close>, the square that held 2, not the original last square \<open>(0, 0)\<close>.
\<close>

theorem reroute_candidate_terminal_counterexample:
  "yields (reroute 4 [[4, 0, 0, 0], [0, 0, 3, 0], [0, 1, 0, 0], [0, 0, 0, 2]] (0, 0)) =
     [([[2, 0, 0, 0], [0, 0, 3, 0], [0, 1, 0, 0], [0, 0, 0, 4]], (3, 3), 2)] \<and>
   (3, 3) \<noteq> ((0, 0) :: pos)"
  using reroute_board4 by (simp add: board4_def board4_rerouted_def)

end
